theory Spec2Isabelle
  imports Main "HOL-Library.Signed_Division"
begin

section \<open>Machine arithmetic of the driver\<close>

text \<open>
  The driver \<^verbatim>\<open>testAllCachePolicy.cpp\<close> computes with C++ \<^verbatim>\<open>int\<close> (32 bits, two's
  complement) and with the result type of \<^verbatim>\<open>std::mt19937\<close>, \<^verbatim>\<open>uint_fast32_t\<close> (64 bits
  on LP64 platforms).  Values are integers of HOL; every place where C++ leaves the
  behaviour undefined is an error result: division or remainder by zero, and a signed
  result that does not fit \<^verbatim>\<open>int\<close>.  The third error is the exception of a cache
  constructor that rejects its capacity.  Signed division truncates towards zero
  (\<open>sdiv\<close>, \<open>smod\<close>), unsigned arithmetic wraps modulo \<open>2 ^ 64\<close>, and the conversion of
  an unsigned value to \<^verbatim>\<open>int\<close> keeps the low 32 bits.
\<close>

datatype error = DivByZero | IntOverflow | CapacityInvalid

definition INT_MAX :: int where
  "INT_MAX = 2147483647"

definition INT_MIN :: int where
  "INT_MIN = - 2147483648"

definition in_int :: "int \<Rightarrow> bool" where
  "in_int x \<longleftrightarrow> INT_MIN \<le> x \<and> x \<le> INT_MAX"

definition bindE :: "error + 'a \<Rightarrow> ('a \<Rightarrow> error + 'b) \<Rightarrow> error + 'b" where
  "bindE m f = (case m of Inl e \<Rightarrow> Inl e | Inr x \<Rightarrow> f x)"

definition checked :: "int \<Rightarrow> error + int" where
  "checked x = (if in_int x then Inr x else Inl IntOverflow)"

definition int_add :: "int \<Rightarrow> int \<Rightarrow> error + int" where
  "int_add a b = checked (a + b)"

definition int_sub :: "int \<Rightarrow> int \<Rightarrow> error + int" where
  "int_sub a b = checked (a - b)"

definition int_mul :: "int \<Rightarrow> int \<Rightarrow> error + int" where
  "int_mul a b = checked (a * b)"

definition int_div :: "int \<Rightarrow> int \<Rightarrow> error + int" where
  "int_div a b = (if b = 0 then Inl DivByZero else checked (a sdiv b))"

definition int_mod :: "int \<Rightarrow> int \<Rightarrow> error + int" where
  "int_mod a b =
     (if b = 0 then Inl DivByZero
      else if in_int (a sdiv b) then Inr (a smod b) else Inl IntOverflow)"

text \<open>Unsigned values of the generator's result type, and the conversions around them.\<close>

definition UMOD :: int where
  "UMOD = 2 ^ 64"

definition to_unsigned :: "int \<Rightarrow> int" where
  "to_unsigned x = x mod UMOD"

definition to_int :: "int \<Rightarrow> int" where
  "to_int u = (u + 2 ^ 31) mod 2 ^ 32 - 2 ^ 31"

definition uadd :: "int \<Rightarrow> int \<Rightarrow> int" where
  "uadd a u = (to_unsigned a + u) mod UMOD"

definition urem :: "int \<Rightarrow> int \<Rightarrow> error + int" where
  "urem g d = (if to_unsigned d = 0 then Inl DivByZero else Inr (g mod to_unsigned d))"

text \<open>
  \<^verbatim>\<open>std::to_string(int)\<close>: the decimal digits, with a minus sign for a negative value.
\<close>

function digits :: "nat \<Rightarrow> string" where
  "digits n = (if n < 10 then [''0123456789'' ! n] else digits (n div 10) @ [''0123456789'' ! (n mod 10)])"
  by pat_completeness auto
termination
  by (relation "measure id") auto

declare digits.simps [simp del]

definition to_string :: "int \<Rightarrow> string" where
  "to_string i = (if i < 0 then CHR ''-'' # digits (nat (- i)) else digits (nat i))"

text \<open>
  The loop \<^verbatim>\<open>for (int i = lo; i < n; ++i) body\<close> over a state; an error of the body
  ends the run.
\<close>

function for_loop :: "int \<Rightarrow> int \<Rightarrow> (int \<Rightarrow> 's \<Rightarrow> error + 's) \<Rightarrow> 's \<Rightarrow> error + 's" where
  "for_loop i n body s =
     (if i < n then (case body i s of Inl e \<Rightarrow> Inl e | Inr s' \<Rightarrow> for_loop (i + 1) n body s')
      else Inr s)"
  by pat_completeness auto
termination
  by (relation "measure (\<lambda>(i, n, body, s). nat (n - i))") auto

declare for_loop.simps [simp del]

section \<open>The test harness\<close>

subsection \<open>Collaborators: the generator and the caches\<close>

text \<open>
  \<^verbatim>\<open>std::mt19937 gen\<close> is seeded from \<^verbatim>\<open>std::random_device\<close>; it is modelled by the
  sequence of 32-bit values it is going to return and the number of values drawn so far.
\<close>

record mt19937 =
  outputs :: "nat \<Rightarrow> nat"
  drawn :: nat

definition gen_draw :: "mt19937 \<Rightarrow> int \<times> mt19937" where
  "gen_draw g = (int (outputs g (drawn g) mod 2 ^ 32), g\<lparr>drawn := Suc (drawn g)\<rparr>)"

datatype CacheType = LRU | LFU | ARC

text \<open>
  The three cache classes come from headers of the library
  (\<^verbatim>\<open>KLruCache.h\<close>, \<^verbatim>\<open>KLfuCache.h\<close>, \<^verbatim>\<open>KArcCache/KArcCache.h\<close>); the driver reaches them
  through \<^verbatim>\<open>KICachePolicy<int, std::string>*\<close>.  They are a parameter of the model:
  the cache a constructor returns for a capacity it accepts, \<^verbatim>\<open>put(key, value)\<close> and
  \<^verbatim>\<open>get(key, result)\<close>, whose result is \<open>Some value\<close> exactly when the call returns
  \<^verbatim>\<open>true\<close>.
\<close>

record 'c policy =
  cache_new :: "CacheType \<Rightarrow> nat \<Rightarrow> 'c"
  cache_put :: "int \<Rightarrow> string \<Rightarrow> 'c \<Rightarrow> 'c"
  cache_get :: "int \<Rightarrow> 'c \<Rightarrow> string option \<times> 'c"

text \<open>
  Modelled from the spec: the constructor call \<^verbatim>\<open>make_unique<...>(config.capacity)\<close> with
  the \<^verbatim>\<open>int\<close> capacity of the driver.  By section 7 (\<^verbatim>\<open>CapacityInvalid\<close>) a negative
  capacity is rejected at construction; every other \<^verbatim>\<open>int\<close> is a capacity of section 6,
  zero included.  The constructors are missing from the sources.
\<close>

definition make_cache :: "'c policy \<Rightarrow> CacheType \<Rightarrow> int \<Rightarrow> error + 'c" where
  "make_cache P t c = (if c < 0 then Inl CapacityInvalid else Inr (cache_new P t (nat c)))"

text \<open>The calls a test issues to its cache, in order (kept for the specification only).\<close>

datatype call = Put int string | Get int "string option"

subsection \<open>\<^verbatim>\<open>CacheTest\<close>\<close>

record TestConfig =
  capacity :: int
  operations :: int
  showProgressBar :: bool
  progressInterval :: int

definition TestConfig_new :: TestConfig where
  "TestConfig_new = \<lparr>capacity = 50, operations = 100000, showProgressBar = True, progressInterval = 10000\<rparr>"

text \<open>
  The members of \<^verbatim>\<open>CacheTest\<close>; \<open>hits\<close> and \<open>operations_map\<close> are the two
  \<^verbatim>\<open>std::map<CacheType, int>\<close> members \<^verbatim>\<open>hits\<close> and \<^verbatim>\<open>operations\<close>.  The test name is
  only printed and is left out.
\<close>

record 'c CacheTest =
  config :: TestConfig
  lruCache :: 'c
  lfuCache :: 'c
  arcCache :: 'c
  hits :: "CacheType \<rightharpoonup> int"
  operations_map :: "CacheType \<rightharpoonup> int"
  gen :: mt19937
  calls :: "call list"

definition showProgress :: "('c, 'z) CacheTest_scheme \<Rightarrow> int \<Rightarrow> int \<Rightarrow> error + unit" where
  "showProgress st current tot =
     (if \<not> showProgressBar (config st) then Inr ()
      else bindE (int_mod current (progressInterval (config st))) (\<lambda>m. Inr ()))"

definition getCache :: "CacheType \<Rightarrow> ('c, 'z) CacheTest_scheme \<Rightarrow> 'c" where
  "getCache t st = (case t of LRU \<Rightarrow> lruCache st | LFU \<Rightarrow> lfuCache st | ARC \<Rightarrow> arcCache st)"

definition setCache :: "CacheType \<Rightarrow> 'c \<Rightarrow> ('c, 'z) CacheTest_scheme \<Rightarrow> ('c, 'z) CacheTest_scheme" where
  "setCache t c st =
     (case t of LRU \<Rightarrow> st\<lparr>lruCache := c\<rparr> | LFU \<Rightarrow> st\<lparr>lfuCache := c\<rparr> | ARC \<Rightarrow> st\<lparr>arcCache := c\<rparr>)"

text \<open>
  \<^verbatim>\<open>initCaches()\<close>: the three constructor calls, in the order of the source, then the six
  counters.  A constructor that throws ends the call before anything after it is assigned.
\<close>

definition initCaches :: "'c policy \<Rightarrow> ('c, 'z) CacheTest_scheme \<Rightarrow> error + ('c, 'z) CacheTest_scheme" where
  "initCaches P st =
     bindE (make_cache P LRU (capacity (config st))) (\<lambda>l.
     bindE (make_cache P LFU (capacity (config st))) (\<lambda>f.
     bindE (make_cache P ARC (capacity (config st))) (\<lambda>a.
       Inr (st\<lparr>lruCache := l, lfuCache := f, arcCache := a,
               hits := (hits st)(LRU \<mapsto> 0, LFU \<mapsto> 0, ARC \<mapsto> 0),
               operations_map := (operations_map st)(LRU \<mapsto> 0, LFU \<mapsto> 0, ARC \<mapsto> 0)\<rparr>))))"

text \<open>
  The constructor: default configuration, empty statistics maps and the seeded generator,
  then \<^verbatim>\<open>initCaches()\<close>, which runs with the default capacity 50: the object holds the
  three caches of that capacity and the six counters at zero (\<open>CacheTest_new_initCaches\<close>
  below: this is what \<open>initCaches\<close> returns on the members just initialised, whatever the
  cache members held).
\<close>

definition CacheTest_new :: "'c policy \<Rightarrow> mt19937 \<Rightarrow> 'c CacheTest" where
  "CacheTest_new P g =
     \<lparr>config = TestConfig_new,
      lruCache = cache_new P LRU 50,
      lfuCache = cache_new P LFU 50,
      arcCache = cache_new P ARC 50,
      hits = Map.empty(LRU \<mapsto> 0, LFU \<mapsto> 0, ARC \<mapsto> 0),
      operations_map = Map.empty(LRU \<mapsto> 0, LFU \<mapsto> 0, ARC \<mapsto> 0),
      gen = g, calls = []\<rparr>"

definition setCapacity :: "'c policy \<Rightarrow> int \<Rightarrow> ('c, 'z) CacheTest_scheme \<Rightarrow> error + ('c, 'z) CacheTest_scheme" where
  "setCapacity P c st = initCaches P (st\<lparr>config := (config st)\<lparr>capacity := c\<rparr>\<rparr>)"

definition setOperations :: "int \<Rightarrow> ('c, 'z) CacheTest_scheme \<Rightarrow> ('c, 'z) CacheTest_scheme" where
  "setOperations n st = st\<lparr>config := (config st)\<lparr>operations := n\<rparr>\<rparr>"

definition setShowProgressBar :: "bool \<Rightarrow> ('c, 'z) CacheTest_scheme \<Rightarrow> ('c, 'z) CacheTest_scheme" where
  "setShowProgressBar b st = st\<lparr>config := (config st)\<lparr>showProgressBar := b\<rparr>\<rparr>"

definition setProgressInterval :: "int \<Rightarrow> ('c, 'z) CacheTest_scheme \<Rightarrow> ('c, 'z) CacheTest_scheme" where
  "setProgressInterval n st = st\<lparr>config := (config st)\<lparr>progressInterval := n\<rparr>\<rparr>"

text \<open>The statements shared by the loops of the three tests.\<close>

definition draw :: "('c, 'z) CacheTest_scheme \<Rightarrow> int \<times> ('c, 'z) CacheTest_scheme" where
  "draw st = (fst (gen_draw (gen st)), st\<lparr>gen := snd (gen_draw (gen st))\<rparr>)"

definition resetStats :: "CacheType \<Rightarrow> ('c, 'z) CacheTest_scheme \<Rightarrow> ('c, 'z) CacheTest_scheme" where
  "resetStats t st = st\<lparr>hits := (hits st)(t \<mapsto> 0), operations_map := (operations_map st)(t \<mapsto> 0)\<rparr>"

definition counter :: "(CacheType \<rightharpoonup> int) \<Rightarrow> CacheType \<Rightarrow> int" where
  "counter m t = (case m t of None \<Rightarrow> 0 | Some v \<Rightarrow> v)"

definition doPut :: "'c policy \<Rightarrow> CacheType \<Rightarrow> int \<Rightarrow> string \<Rightarrow> ('c, 'z) CacheTest_scheme \<Rightarrow> ('c, 'z) CacheTest_scheme" where
  "doPut P t key val st =
     (setCache t (cache_put P key val (getCache t st)) st)\<lparr>calls := calls st @ [Put key val]\<rparr>"

text \<open>
  \<^verbatim>\<open>operations[type]++; if (cache->get(key, result)) hits[type]++;\<close>
\<close>

definition doGet :: "'c policy \<Rightarrow> CacheType \<Rightarrow> int \<Rightarrow> ('c, 'z) CacheTest_scheme \<Rightarrow> error + ('c, 'z) CacheTest_scheme" where
  "doGet P t key st =
     bindE (int_add (counter (operations_map st) t) 1) (\<lambda>n.
       let st1 = st\<lparr>operations_map := (operations_map st)(t \<mapsto> n)\<rparr>;
           r = cache_get P key (getCache t st1);
           st2 = (setCache t (snd r) st1)\<lparr>calls := calls st1 @ [Get key (fst r)]\<rparr>
       in if fst r \<noteq> None
          then bindE (int_add (counter (hits st2) t) 1) (\<lambda>h. Inr (st2\<lparr>hits := (hits st2)(t \<mapsto> h)\<rparr>))
          else Inr st2)"

subsection \<open>\<^verbatim>\<open>HotDataAccessTest\<close>\<close>

record 'c HotDataAccessTest = "'c CacheTest" +
  hotKeys :: int
  coldKeys :: int
  hotRatio :: int

definition HotDataAccessTest_new :: "'c policy \<Rightarrow> mt19937 \<Rightarrow> 'c HotDataAccessTest" where
  "HotDataAccessTest_new P g =
     CacheTest.extend (CacheTest_new P g)
       (HotDataAccessTest.fields 20 5000 70)"

definition setHotKeys :: "int \<Rightarrow> 'c HotDataAccessTest \<Rightarrow> 'c HotDataAccessTest" where
  "setHotKeys n st = st\<lparr>hotKeys := n\<rparr>"

definition setColdKeys :: "int \<Rightarrow> 'c HotDataAccessTest \<Rightarrow> 'c HotDataAccessTest" where
  "setColdKeys n st = st\<lparr>coldKeys := n\<rparr>"

definition clamp_ratio :: "int \<Rightarrow> int" where
  "clamp_ratio ratio = (let r1 = (if ratio < 0 then 0 else ratio) in if r1 > 100 then 100 else r1)"

definition setHotRatio :: "int \<Rightarrow> 'c HotDataAccessTest \<Rightarrow> 'c HotDataAccessTest" where
  "setHotRatio ratio st = st\<lparr>hotRatio := clamp_ratio ratio\<rparr>"

text \<open>
  The key of operation \<open>op\<close>, the same statement in the put loop and in the get loop:
  \<^verbatim>\<open>if (op % 100 < hotRatio) key = gen() % hotKeys; else key = hotKeys + (gen() % coldKeys);\<close>
\<close>

definition hotKey :: "int \<Rightarrow> 'c HotDataAccessTest \<Rightarrow> error + int \<times> 'c HotDataAccessTest" where
  "hotKey op st =
     bindE (int_mod op 100) (\<lambda>m.
       if m < hotRatio st
       then bindE (urem (fst (draw st)) (hotKeys st)) (\<lambda>u. Inr (to_int u, snd (draw st)))
       else bindE (urem (fst (draw st)) (coldKeys st)) (\<lambda>u.
              Inr (to_int (uadd (hotKeys st) u), snd (draw st))))"

definition hot_put_body :: "'c policy \<Rightarrow> CacheType \<Rightarrow> int \<Rightarrow> 'c HotDataAccessTest \<Rightarrow> error + 'c HotDataAccessTest" where
  "hot_put_body P t op st =
     bindE (hotKey op st) (\<lambda>(key, st1).
       let st2 = doPut P t key (''value'' @ to_string key) st1 in
       bindE (int_add op 1) (\<lambda>n.
       bindE (showProgress st2 n (operations (config st2))) (\<lambda>_. Inr st2)))"

definition hot_get_body :: "'c policy \<Rightarrow> CacheType \<Rightarrow> int \<Rightarrow> 'c HotDataAccessTest \<Rightarrow> error + 'c HotDataAccessTest" where
  "hot_get_body P t get_op st =
     bindE (hotKey get_op st) (\<lambda>(key, st1).
       bindE (doGet P t key st1) (\<lambda>st2.
       bindE (int_add get_op 1) (\<lambda>n.
       bindE (showProgress st2 n (operations (config st2))) (\<lambda>_. Inr st2))))"

definition hot_runTestForCacheType :: "'c policy \<Rightarrow> CacheType \<Rightarrow> 'c HotDataAccessTest \<Rightarrow> error + 'c HotDataAccessTest" where
  "hot_runTestForCacheType P t st =
     bindE (for_loop 0 (operations (config st)) (hot_put_body P t) (resetStats t st)) (\<lambda>st1.
       for_loop 0 (operations (config st1)) (hot_get_body P t) st1)"

text \<open>The configuration of the hotspot test in \<^verbatim>\<open>main()\<close>.\<close>

definition main_hotTest :: "'c policy \<Rightarrow> mt19937 \<Rightarrow> error + 'c HotDataAccessTest" where
  "main_hotTest P g =
     bindE (setCapacity P 50 (HotDataAccessTest_new P g)) (\<lambda>st.
       Inr (setHotRatio 70 (setColdKeys 5000 (setHotKeys 20 (setOperations 200000 st)))))"

subsection \<open>\<^verbatim>\<open>LoopPatternTest\<close>\<close>

record 'c LoopPatternTest = "'c CacheTest" +
  loopSize :: int
  sequentialRatio :: int
  randomRatio :: int

definition LoopPatternTest_new :: "'c policy \<Rightarrow> mt19937 \<Rightarrow> 'c LoopPatternTest" where
  "LoopPatternTest_new P g =
     CacheTest.extend (CacheTest_new P g)
       (LoopPatternTest.fields 500 60 30)"

definition setLoopSize :: "int \<Rightarrow> 'c LoopPatternTest \<Rightarrow> 'c LoopPatternTest" where
  "setLoopSize n st = st\<lparr>loopSize := n\<rparr>"

definition setSequentialRatio :: "int \<Rightarrow> 'c LoopPatternTest \<Rightarrow> error + 'c LoopPatternTest" where
  "setSequentialRatio ratio st =
     (let st1 = st\<lparr>sequentialRatio := clamp_ratio ratio\<rparr> in
      bindE (int_add (sequentialRatio st1) (randomRatio st1)) (\<lambda>sum_ratio.
        if sum_ratio > 100
        then bindE (int_sub 100 (sequentialRatio st1)) (\<lambda>r. Inr (st1\<lparr>randomRatio := r\<rparr>))
        else Inr st1))"

definition setRandomRatio :: "int \<Rightarrow> 'c LoopPatternTest \<Rightarrow> error + 'c LoopPatternTest" where
  "setRandomRatio ratio st =
     (let st1 = st\<lparr>randomRatio := clamp_ratio ratio\<rparr> in
      bindE (int_add (sequentialRatio st1) (randomRatio st1)) (\<lambda>sum_ratio.
        if sum_ratio > 100
        then bindE (int_sub 100 (randomRatio st1)) (\<lambda>r. Inr (st1\<lparr>sequentialRatio := r\<rparr>))
        else Inr st1))"

definition loop_fill_body :: "'c policy \<Rightarrow> CacheType \<Rightarrow> int \<Rightarrow> 'c LoopPatternTest \<Rightarrow> error + 'c LoopPatternTest" where
  "loop_fill_body P t key st =
     (let st1 = doPut P t key (''loop'' @ to_string key) st in
      bindE (int_mod key 100) (\<lambda>m.
      bindE (if m = 0 then Inr True else bindE (int_sub (loopSize st1) 1) (\<lambda>l. Inr (key = l))) (\<lambda>b.
        if b then bindE (int_add key 1) (\<lambda>n. bindE (showProgress st1 n (loopSize st1)) (\<lambda>_. Inr st1))
        else Inr st1)))"

text \<open>
  The key of an access; the local \<^verbatim>\<open>current_pos\<close> is carried with the test object.
\<close>

definition loopKey :: "int \<Rightarrow> int \<times> 'c LoopPatternTest \<Rightarrow> error + int \<times> int \<times> 'c LoopPatternTest" where
  "loopKey op cs =
     (let current_pos = fst cs; st = snd cs in
      bindE (int_mod op 100) (\<lambda>r.
        if r < sequentialRatio st
        then bindE (int_add current_pos 1) (\<lambda>n.
             bindE (int_mod n (loopSize st)) (\<lambda>p. Inr (current_pos, p, st)))
        else bindE (int_add (sequentialRatio st) (randomRatio st)) (\<lambda>sum_ratio.
          if r < sum_ratio
          then bindE (urem (fst (draw st)) (loopSize st)) (\<lambda>u. Inr (to_int u, current_pos, snd (draw st)))
          else bindE (urem (fst (draw st)) (loopSize st)) (\<lambda>u.
                 Inr (to_int (uadd (loopSize st) u), current_pos, snd (draw st))))))"

definition loop_access_body :: "'c policy \<Rightarrow> CacheType \<Rightarrow> int \<Rightarrow> int \<times> 'c LoopPatternTest \<Rightarrow> error + int \<times> 'c LoopPatternTest" where
  "loop_access_body P t op cs =
     bindE (loopKey op cs) (\<lambda>(key, pos, st1).
       bindE (doGet P t key st1) (\<lambda>st2.
       bindE (int_add op 1) (\<lambda>n.
       bindE (showProgress st2 n (operations (config st2))) (\<lambda>_. Inr (pos, st2)))))"

definition loop_runTestForCacheType :: "'c policy \<Rightarrow> CacheType \<Rightarrow> 'c LoopPatternTest \<Rightarrow> error + 'c LoopPatternTest" where
  "loop_runTestForCacheType P t st =
     bindE (for_loop 0 (loopSize st) (loop_fill_body P t) (resetStats t st)) (\<lambda>st1.
     bindE (for_loop 0 (operations (config st1)) (loop_access_body P t) (0, st1)) (\<lambda>cs.
       Inr (snd cs)))"

text \<open>The configuration of the loop test in \<^verbatim>\<open>main()\<close>.\<close>

definition main_loopTest :: "'c policy \<Rightarrow> mt19937 \<Rightarrow> error + 'c LoopPatternTest" where
  "main_loopTest P g =
     bindE (setCapacity P 50 (LoopPatternTest_new P g)) (\<lambda>s1.
     bindE (setSequentialRatio 60 (setLoopSize 500 (setOperations 100000 s1))) (\<lambda>s2.
       setRandomRatio 30 s2))"

subsection \<open>\<^verbatim>\<open>WorkloadShiftTest\<close>\<close>

record 'c WorkloadShiftTest = "'c CacheTest" +
  initialDataSize :: int
  phases :: int
  putProbability :: int

definition WorkloadShiftTest_new :: "'c policy \<Rightarrow> mt19937 \<Rightarrow> 'c WorkloadShiftTest" where
  "WorkloadShiftTest_new P g =
     CacheTest.extend (CacheTest_new P g)
       (WorkloadShiftTest.fields 1000 5 30)"

definition setInitialDataSize :: "int \<Rightarrow> 'c WorkloadShiftTest \<Rightarrow> 'c WorkloadShiftTest" where
  "setInitialDataSize n st = st\<lparr>initialDataSize := n\<rparr>"

definition setPhases :: "int \<Rightarrow> 'c WorkloadShiftTest \<Rightarrow> 'c WorkloadShiftTest" where
  "setPhases n st = st\<lparr>phases := n\<rparr>"

definition setPutProbability :: "int \<Rightarrow> 'c WorkloadShiftTest \<Rightarrow> 'c WorkloadShiftTest" where
  "setPutProbability probability st = st\<lparr>putProbability := clamp_ratio probability\<rparr>"

definition shift_fill_body :: "'c policy \<Rightarrow> CacheType \<Rightarrow> int \<Rightarrow> 'c WorkloadShiftTest \<Rightarrow> error + 'c WorkloadShiftTest" where
  "shift_fill_body P t key st =
     (let st1 = doPut P t key (''init'' @ to_string key) st in
      bindE (int_mod key 100) (\<lambda>m.
      bindE (if m = 0 then Inr True else bindE (int_sub (initialDataSize st1) 1) (\<lambda>l. Inr (key = l))) (\<lambda>b.
        if b then bindE (int_add key 1) (\<lambda>n. bindE (showProgress st1 n (initialDataSize st1)) (\<lambda>_. Inr st1))
        else Inr st1)))"

text \<open>
  The mixed pattern of phase 4 (also the \<^verbatim>\<open>default\<close> label of the \<^verbatim>\<open>switch\<close>):
  \<^verbatim>\<open>int r = gen() % 100; if (r < 30) key = gen() % 5; else if (r < 60) key = 5 + (gen() % 95);
  else key = 100 + (gen() % (initialDataSize - 100));\<close>
\<close>

definition shiftMixedKey :: "'c WorkloadShiftTest \<Rightarrow> error + int \<times> 'c WorkloadShiftTest" where
  "shiftMixedKey st =
     bindE (urem (fst (draw st)) 100) (\<lambda>u.
       let r = to_int u; st1 = snd (draw st) in
       if r < 30 then bindE (urem (fst (draw st1)) 5) (\<lambda>v. Inr (to_int v, snd (draw st1)))
       else if r < 60 then bindE (urem (fst (draw st1)) 95) (\<lambda>v. Inr (to_int (uadd 5 v), snd (draw st1)))
       else bindE (int_sub (initialDataSize st1) 100) (\<lambda>d.
            bindE (urem (fst (draw st1)) d) (\<lambda>v. Inr (to_int (uadd 100 v), snd (draw st1)))))"

text \<open>
  The key of operation \<open>op\<close> in the phase \<open>phase = op / phaseLength\<close>, by \<^verbatim>\<open>switch (phase % 5)\<close>.
\<close>

definition shiftKey :: "int \<Rightarrow> int \<Rightarrow> int \<Rightarrow> 'c WorkloadShiftTest \<Rightarrow> error + int \<times> 'c WorkloadShiftTest" where
  "shiftKey phaseLength phase op st =
     bindE (int_mod phase 5) (\<lambda>sel.
       if sel = 0 then bindE (urem (fst (draw st)) 5) (\<lambda>u. Inr (to_int u, snd (draw st)))
       else if sel = 1 then bindE (urem (fst (draw st)) (initialDataSize st)) (\<lambda>u. Inr (to_int u, snd (draw st)))
       else if sel = 2 then
         bindE (int_mul phase phaseLength) (\<lambda>b.
         bindE (int_sub op b) (\<lambda>off.
         bindE (int_mod off 100) (\<lambda>k. Inr (k, st))))
       else if sel = 3 then
         bindE (int_div op 1000) (\<lambda>q.
         bindE (int_mod q 10) (\<lambda>locality.
         bindE (int_mul locality 20) (\<lambda>base.
         bindE (urem (fst (draw st)) 20) (\<lambda>u. Inr (to_int (uadd base u), snd (draw st))))))
       else shiftMixedKey st)"

definition shift_access_body :: "'c policy \<Rightarrow> CacheType \<Rightarrow> int \<Rightarrow> int \<Rightarrow> 'c WorkloadShiftTest \<Rightarrow> error + 'c WorkloadShiftTest" where
  "shift_access_body P t phaseLength op st =
     bindE (int_div op phaseLength) (\<lambda>phase.
     bindE (int_mod op phaseLength) (\<lambda>start.
     bindE (shiftKey phaseLength phase op st) (\<lambda>(key, st1).
     bindE (doGet P t key st1) (\<lambda>st2.
     bindE (urem (fst (draw st2)) 100) (\<lambda>u.
       let st3 = snd (draw st2);
           st4 = (if to_int u < putProbability st3 then doPut P t key (''new'' @ to_string key) st3 else st3)
       in bindE (int_add op 1) (\<lambda>n.
          bindE (showProgress st4 n (operations (config st4))) (\<lambda>_. Inr st4)))))))"

definition shift_runTestForCacheType :: "'c policy \<Rightarrow> CacheType \<Rightarrow> 'c WorkloadShiftTest \<Rightarrow> error + 'c WorkloadShiftTest" where
  "shift_runTestForCacheType P t st =
     bindE (for_loop 0 (initialDataSize st) (shift_fill_body P t) (resetStats t st)) (\<lambda>st1.
     bindE (int_div (operations (config st1)) (phases st1)) (\<lambda>phaseLength.
       for_loop 0 (operations (config st1)) (shift_access_body P t phaseLength) st1))"

text \<open>
  The value of \<^verbatim>\<open>const int phaseLength = config.operations / phases;\<close> when the division
  is defined.
\<close>

definition phaseLength :: "'c WorkloadShiftTest \<Rightarrow> int" where
  "phaseLength st = operations (config st) sdiv phases st"

text \<open>The configuration of the workload-shift test in \<^verbatim>\<open>main()\<close>.\<close>

definition main_workloadTest :: "'c policy \<Rightarrow> mt19937 \<Rightarrow> error + 'c WorkloadShiftTest" where
  "main_workloadTest P g =
     bindE (setCapacity P 4 (WorkloadShiftTest_new P g)) (\<lambda>st.
       Inr (setPutProbability 30 (setPhases 5 (setInitialDataSize 1000 (setOperations 50000 st)))))"

section \<open>The cache policies\<close>

text \<open>
  The headers of the three policies are not among the sources of the driver; the
  definitions of this section follow sections 3 and 4 of the specification.  A recency
  list is a list of entries with its MRU end at the head; the index of a policy is the
  lookup of a key in its lists.
\<close>

definition remove_key :: "'k \<Rightarrow> ('k \<times> 'a) list \<Rightarrow> ('k \<times> 'a) list" where
  "remove_key k xs = filter (\<lambda>e. fst e \<noteq> k) xs"

subsection \<open>LRU core\<close>

record ('k, 'v) lru =
  lru_c :: nat
  lru_L :: "('k \<times> 'v) list"

text \<open>Modelled from the spec: the constructor \<^verbatim>\<open>new_lru(capacity)\<close> of section 6 (the class \<^verbatim>\<open>KLruCache\<close> is missing).\<close>

definition new_lru :: "nat \<Rightarrow> ('k, 'v) lru" where
  "new_lru c = \<lparr>lru_c = c, lru_L = []\<rparr>"

text \<open>
  Modelled from the spec: \<^verbatim>\<open>put\<close> of the LRU core, section 4.3 (\<^verbatim>\<open>KLruCache::put\<close> is missing):
  if \<open>k \<in> I\<close>, overwrite the value and move to front; else, if \<open>|L| == c\<close>, pop the tail
  node; then create the node and push it to the front.  With capacity 0 the call is a
  no-op (section 4.1).
\<close>

definition lru_put :: "'k \<Rightarrow> 'v \<Rightarrow> ('k, 'v) lru \<Rightarrow> ('k, 'v) lru" where
  "lru_put k v s =
     (if lru_c s = 0 then s
      else if map_of (lru_L s) k \<noteq> None then s\<lparr>lru_L := (k, v) # remove_key k (lru_L s)\<rparr>
      else if length (lru_L s) = lru_c s then s\<lparr>lru_L := (k, v) # butlast (lru_L s)\<rparr>
      else s\<lparr>lru_L := (k, v) # lru_L s\<rparr>)"

text \<open>
  Modelled from the spec: \<^verbatim>\<open>get\<close> of the LRU core, section 4.3 (\<^verbatim>\<open>KLruCache::get\<close> is missing):
  if \<open>k \<notin> I\<close>, miss; else move the node to the front and return its value.
\<close>

definition lru_get :: "'k \<Rightarrow> ('k, 'v) lru \<Rightarrow> 'v option \<times> ('k, 'v) lru" where
  "lru_get k s =
     (case map_of (lru_L s) k of
        None \<Rightarrow> (None, s)
      | Some v \<Rightarrow> (Some v, s\<lparr>lru_L := (k, v) # remove_key k (lru_L s)\<rparr>))"

subsection \<open>LFU core\<close>

text \<open>
  A node is an entry \<open>(key, value, access_count)\<close>.  The frequency list \<open>F\<close> is kept as
  one list of nodes in the order of their arrival into their present frequency level:
  the bucket \<open>F[f]\<close> is the sublist of the nodes whose count is \<open>f\<close>, its head first.
\<close>

record ('k, 'v) lfu =
  lfu_c :: nat
  lfu_nodes :: "('k \<times> 'v \<times> nat) list"
  min_freq :: nat
  max_avg_freq :: nat
  total_freq :: nat

text \<open>Modelled from the spec: the bucket \<open>F[f]\<close> of section 4.6.\<close>

definition bucket :: "nat \<Rightarrow> ('k \<times> 'v \<times> nat) list \<Rightarrow> ('k \<times> 'v \<times> nat) list" where
  "bucket f ns = filter (\<lambda>e. snd (snd e) = f) ns"

text \<open>Modelled from the spec: the constructor \<^verbatim>\<open>new_lfu(capacity, max_avg_freq)\<close> of section 6 (the class \<^verbatim>\<open>KLfuCache\<close> is missing).\<close>

definition new_lfu :: "nat \<Rightarrow> nat \<Rightarrow> ('k, 'v) lfu" where
  "new_lfu c m = \<lparr>lfu_c = c, lfu_nodes = [], min_freq = 0, max_avg_freq = m, total_freq = 0\<rparr>"

text \<open>
  Modelled from the spec: the bucket promotion of a hit, section 4.6 (missing with \<^verbatim>\<open>KLfuCache\<close>):
  let \<open>f = node.count\<close>; detach from \<open>F[f]\<close>; if \<open>F[f]\<close> becomes empty and
  \<open>f == min_freq\<close>, \<open>min_freq \<leftarrow> f+1\<close>; \<open>node.count \<leftarrow> f+1\<close>; append to \<open>F[f+1]\<close>.
\<close>

definition lfu_promote :: "'k \<Rightarrow> ('k, 'v) lfu \<Rightarrow> ('k, 'v) lfu" where
  "lfu_promote k s =
     (case map_of (lfu_nodes s) k of
        None \<Rightarrow> s
      | Some (v, f) \<Rightarrow>
          let rest = remove_key k (lfu_nodes s) in
          s\<lparr>lfu_nodes := rest @ [(k, v, f + 1)],
            min_freq := (if bucket f rest = [] \<and> f = min_freq s then f + 1 else min_freq s)\<rparr>)"

text \<open>Modelled from the spec: the counts of the nodes, for the decay of section 4.6.\<close>

definition node_counts :: "('k \<times> 'v \<times> nat) list \<Rightarrow> nat list" where
  "node_counts ns = map (\<lambda>e. snd (snd e)) ns"

text \<open>Modelled from the spec: section 4.6, halve every node's count (floor, minimum 1).\<close>

definition halve_counts :: "('k \<times> 'v \<times> nat) list \<Rightarrow> ('k \<times> 'v \<times> nat) list" where
  "halve_counts ns = map (\<lambda>e. (fst e, fst (snd e), max 1 (snd (snd e) div 2))) ns"

text \<open>
  Modelled from the spec: the decay of section 4.6 (missing with \<^verbatim>\<open>KLfuCache\<close>):
  if \<open>max_avg_freq > 0\<close> and \<open>total_freq / |I| > max_avg_freq\<close>, halve every node's
  count (floor, minimum 1), rebuild \<open>F\<close>, recompute \<open>min_freq\<close> and set
  \<open>total_freq\<close> to the sum of the counts.
\<close>

definition lfu_decay :: "('k, 'v) lfu \<Rightarrow> ('k, 'v) lfu" where
  "lfu_decay s =
     (if max_avg_freq s > 0 \<and> lfu_nodes s \<noteq> [] \<and> total_freq s div length (lfu_nodes s) > max_avg_freq s
      then let ns = halve_counts (lfu_nodes s) in
           s\<lparr>lfu_nodes := ns, min_freq := Min (set (node_counts ns)), total_freq := sum_list (node_counts ns)\<rparr>
      else s)"

text \<open>
  Modelled from the spec: the eviction of section 4.6 (missing with \<^verbatim>\<open>KLfuCache\<close>):
  evict the head of \<open>F[min_freq]\<close>, updating \<open>total_freq -= evicted.count\<close>.
\<close>

definition lfu_evict :: "('k, 'v) lfu \<Rightarrow> ('k, 'v) lfu" where
  "lfu_evict s =
     (case bucket (min_freq s) (lfu_nodes s) of
        [] \<Rightarrow> s
      | e # _ \<Rightarrow> s\<lparr>lfu_nodes := remove_key (fst e) (lfu_nodes s),
                  total_freq := total_freq s - snd (snd e)\<rparr>)"

text \<open>Modelled from the spec: section 4.6, overwrite the value of the node of a key.\<close>

definition overwrite_value :: "'k \<Rightarrow> 'v \<Rightarrow> ('k \<times> 'v \<times> nat) list \<Rightarrow> ('k \<times> 'v \<times> nat) list" where
  "overwrite_value k v ns = map (\<lambda>e. if fst e = k then (k, v, snd (snd e)) else e) ns"

text \<open>
  Modelled from the spec: \<^verbatim>\<open>put\<close> of the LFU core, section 4.6 (\<^verbatim>\<open>KLfuCache::put\<close> is missing).
  Hit: overwrite the value and perform the bucket promotion of \<^verbatim>\<open>get\<close>.  Miss: if full,
  evict; insert the new node into \<open>F[1]\<close>, set \<open>min_freq = 1\<close>, \<open>total_freq += 1\<close>.
  With capacity 0 the call is a no-op (section 4.1).
\<close>

definition lfu_put :: "'k \<Rightarrow> 'v \<Rightarrow> ('k, 'v) lfu \<Rightarrow> ('k, 'v) lfu" where
  "lfu_put k v s =
     (if lfu_c s = 0 then s
      else case map_of (lfu_nodes s) k of
        Some (v0, f) \<Rightarrow> lfu_promote k (s\<lparr>lfu_nodes := overwrite_value k v (lfu_nodes s)\<rparr>)
      | None \<Rightarrow>
          let s1 = (if length (lfu_nodes s) = lfu_c s then lfu_evict s else s) in
          s1\<lparr>lfu_nodes := lfu_nodes s1 @ [(k, v, 1)], min_freq := 1, total_freq := total_freq s1 + 1\<rparr>)"

text \<open>
  Modelled from the spec: \<^verbatim>\<open>get\<close> of the LFU core, section 4.6 (\<^verbatim>\<open>KLfuCache::get\<close> is missing).
  Miss: absent.  Hit: the bucket promotion, \<open>total_freq += 1\<close>, return the value,
  trigger the decay check.
\<close>

definition lfu_get :: "'k \<Rightarrow> ('k, 'v) lfu \<Rightarrow> 'v option \<times> ('k, 'v) lfu" where
  "lfu_get k s =
     (case map_of (lfu_nodes s) k of
        None \<Rightarrow> (None, s)
      | Some (v, f) \<Rightarrow>
          (Some v, lfu_decay ((lfu_promote k s)\<lparr>total_freq := total_freq (lfu_promote k s) + 1\<rparr>)))"

subsection \<open>ARC core\<close>

record ('k, 'v) arc =
  arc_c :: nat
  T1 :: "('k \<times> 'v) list"
  T2 :: "('k \<times> 'v) list"
  B1 :: "'k list"
  B2 :: "'k list"
  arc_p :: nat

text \<open>Modelled from the spec: the constructor \<^verbatim>\<open>new_arc(capacity)\<close> of section 6, with \<open>p\<close> initially 0 (the class \<^verbatim>\<open>KArcCache\<close> is missing).\<close>

definition new_arc :: "nat \<Rightarrow> ('k, 'v) arc" where
  "new_arc c = \<lparr>arc_c = c, T1 = [], T2 = [], B1 = [], B2 = [], arc_p = 0\<rparr>"

text \<open>
  Modelled from the spec: \<^verbatim>\<open>REPLACE(k, p)\<close>, section 4.8.2 (missing with \<^verbatim>\<open>KArcCache\<close>):
  if \<open>|T1| > 0\<close> and (\<open>|T1| > p\<close>, or (\<open>k \<in> B2\<close> and \<open>|T1| == p\<close>)), move the LRU of
  \<open>T1\<close> to the MRU of \<open>B1\<close>; else move the LRU of \<open>T2\<close> to the MRU of \<open>B2\<close>.
\<close>

definition REPLACE :: "'k \<Rightarrow> ('k, 'v) arc \<Rightarrow> ('k, 'v) arc" where
  "REPLACE k s =
     (if length (T1 s) > 0 \<and> (length (T1 s) > arc_p s \<or> (k \<in> set (B2 s) \<and> length (T1 s) = arc_p s))
      then s\<lparr>T1 := butlast (T1 s), B1 := fst (last (T1 s)) # B1 s\<rparr>
      else if T2 s = [] then s
      else s\<lparr>T2 := butlast (T2 s), B2 := fst (last (T2 s)) # B2 s\<rparr>)"

text \<open>
  Modelled from the spec: the adaptation of \<open>p\<close> on a ghost hit, section 4.8.1 (missing with \<^verbatim>\<open>KArcCache\<close>):
  in \<open>B1\<close>, \<open>p \<leftarrow> min(c, p + max(1, |B2| / |B1|))\<close>; in \<open>B2\<close>,
  \<open>p \<leftarrow> max(0, p - max(1, |B1| / |B2|))\<close>.
\<close>

definition adapt_B1 :: "('k, 'v) arc \<Rightarrow> ('k, 'v) arc" where
  "adapt_B1 s = s\<lparr>arc_p := min (arc_c s) (arc_p s + max 1 (length (B2 s) div length (B1 s)))\<rparr>"

definition adapt_B2 :: "('k, 'v) arc \<Rightarrow> ('k, 'v) arc" where
  "adapt_B2 s =
     (let d = max 1 (length (B1 s) div length (B2 s)) in
      s\<lparr>arc_p := (if d \<le> arc_p s then arc_p s - d else 0)\<rparr>)"

text \<open>
  Modelled from the spec: case IV of section 4.8.1 before the insertion (missing with \<^verbatim>\<open>KArcCache\<close>).
  If \<open>|T1| + |B1| == c\<close>: if \<open>|T1| < c\<close>, delete the LRU of \<open>B1\<close>, then \<open>REPLACE\<close>; else
  delete the LRU of \<open>T1\<close>.  Else if \<open>|T1| + |B1| < c\<close> and the four lists hold at least
  \<open>c\<close> keys: if they hold \<open>2c\<close>, delete the LRU of \<open>B2\<close>; \<open>REPLACE\<close>.
\<close>

definition arc_make_room :: "'k \<Rightarrow> ('k, 'v) arc \<Rightarrow> ('k, 'v) arc" where
  "arc_make_room k s =
     (let c = arc_c s; n = length (T1 s) + length (T2 s) + length (B1 s) + length (B2 s) in
      if length (T1 s) + length (B1 s) = c
      then (if length (T1 s) < c then REPLACE k (s\<lparr>B1 := butlast (B1 s)\<rparr>)
            else s\<lparr>T1 := butlast (T1 s)\<rparr>)
      else if length (T1 s) + length (B1 s) < c \<and> n \<ge> c
      then REPLACE k (if n = 2 * c then s\<lparr>B2 := butlast (B2 s)\<rparr> else s)
      else s)"

text \<open>
  Modelled from the spec: \<^verbatim>\<open>put\<close> of the ARC core, the four cases of section 4.8.1 in order
  (\<^verbatim>\<open>KArcCache::put\<close> is missing).  With capacity 0 the call is a no-op (section 4.1).
\<close>

definition arc_put :: "'k \<Rightarrow> 'v \<Rightarrow> ('k, 'v) arc \<Rightarrow> ('k, 'v) arc" where
  "arc_put k v s =
     (if arc_c s = 0 then s
      else if map_of (T1 s) k \<noteq> None \<or> map_of (T2 s) k \<noteq> None
      then s\<lparr>T1 := remove_key k (T1 s), T2 := (k, v) # remove_key k (T2 s)\<rparr>
      else if k \<in> set (B1 s)
      then (let s1 = REPLACE k (adapt_B1 s) in
            s1\<lparr>B1 := removeAll k (B1 s1), T2 := (k, v) # T2 s1\<rparr>)
      else if k \<in> set (B2 s)
      then (let s1 = REPLACE k (adapt_B2 s) in
            s1\<lparr>B2 := removeAll k (B2 s1), T2 := (k, v) # T2 s1\<rparr>)
      else (let s1 = arc_make_room k s in s1\<lparr>T1 := (k, v) # T1 s1\<rparr>))"

text \<open>
  Modelled from the spec: \<^verbatim>\<open>get\<close> of the ARC core (\<^verbatim>\<open>KArcCache::get\<close> is missing): a resident
  key is moved to the MRU of \<open>T2\<close> (case I); a ghost key applies the adaptation and is
  still a miss (sections 4.8.1 and 9).
\<close>

definition arc_get :: "'k \<Rightarrow> ('k, 'v) arc \<Rightarrow> 'v option \<times> ('k, 'v) arc" where
  "arc_get k s =
     (case map_of (T1 s) k of
        Some v \<Rightarrow> (Some v, s\<lparr>T1 := remove_key k (T1 s), T2 := (k, v) # remove_key k (T2 s)\<rparr>)
      | None \<Rightarrow>
         (case map_of (T2 s) k of
            Some v \<Rightarrow> (Some v, s\<lparr>T2 := (k, v) # remove_key k (T2 s)\<rparr>)
          | None \<Rightarrow>
              if k \<in> set (B1 s) then (None, adapt_B1 s)
              else if k \<in> set (B2 s) then (None, adapt_B2 s)
              else (None, s)))"

subsection \<open>The uniform interface\<close>

datatype ('k, 'v) cache =
  LruCache "('k, 'v) lru" | LfuCache "('k, 'v) lfu" | ArcCache "('k, 'v) arc"

datatype ('k, 'v) cache_op = OpPut 'k 'v | OpGet 'k

text \<open>Modelled from the spec: the capability \<^verbatim>\<open>CachePolicy\<close> of section 4.1, dispatching \<^verbatim>\<open>put\<close> (\<^verbatim>\<open>KICachePolicy\<close> is missing).\<close>

fun policy_put :: "'k \<Rightarrow> 'v \<Rightarrow> ('k, 'v) cache \<Rightarrow> ('k, 'v) cache" where
  "policy_put k v (LruCache s) = LruCache (lru_put k v s)"
| "policy_put k v (LfuCache s) = LfuCache (lfu_put k v s)"
| "policy_put k v (ArcCache s) = ArcCache (arc_put k v s)"

text \<open>Modelled from the spec: the capability \<^verbatim>\<open>CachePolicy\<close> of section 4.1, dispatching \<^verbatim>\<open>get\<close> (\<^verbatim>\<open>KICachePolicy\<close> is missing).\<close>

fun policy_get :: "'k \<Rightarrow> ('k, 'v) cache \<Rightarrow> 'v option \<times> ('k, 'v) cache" where
  "policy_get k (LruCache s) = (fst (lru_get k s), LruCache (snd (lru_get k s)))"
| "policy_get k (LfuCache s) = (fst (lfu_get k s), LfuCache (snd (lfu_get k s)))"
| "policy_get k (ArcCache s) = (fst (arc_get k s), ArcCache (snd (arc_get k s)))"

text \<open>
  Modelled from the spec: the resident entries of the glossary, those with a stored value
  (the single list of LRU and LFU, \<open>T1\<close> and \<open>T2\<close> of ARC), and the configured capacity.
\<close>

fun resident :: "('k, 'v) cache \<Rightarrow> nat" where
  "resident (LruCache s) = length (lru_L s)"
| "resident (LfuCache s) = length (lfu_nodes s)"
| "resident (ArcCache s) = length (T1 s) + length (T2 s)"

fun cache_capacity :: "('k, 'v) cache \<Rightarrow> nat" where
  "cache_capacity (LruCache s) = lru_c s"
| "cache_capacity (LfuCache s) = lfu_c s"
| "cache_capacity (ArcCache s) = arc_c s"

fun apply_op :: "('k, 'v) cache \<Rightarrow> ('k, 'v) cache_op \<Rightarrow> ('k, 'v) cache" where
  "apply_op s (OpPut k v) = policy_put k v s"
| "apply_op s (OpGet k) = snd (policy_get k s)"

definition apply_ops :: "('k, 'v) cache \<Rightarrow> ('k, 'v) cache_op list \<Rightarrow> ('k, 'v) cache" where
  "apply_ops s ops = foldl apply_op s ops"

text \<open>
  Modelled from the spec: the constructors of section 6 by policy; the LFU cache of the
  driver takes the default \<open>max_avg_freq\<close>.  These caches instantiate the parameter of
  the harness.
\<close>

definition new_cache :: "CacheType \<Rightarrow> nat \<Rightarrow> ('k, 'v) cache" where
  "new_cache t c =
     (case t of LRU \<Rightarrow> LruCache (new_lru c) | LFU \<Rightarrow> LfuCache (new_lfu c 0) | ARC \<Rightarrow> ArcCache (new_arc c))"

definition spec_policy :: "(int, string) cache policy" where
  "spec_policy = \<lparr>cache_new = new_cache, cache_put = policy_put, cache_get = policy_get\<rparr>"

text \<open>Two generators for the runs that are evaluated: the values 7, 20, 33, \<dots> and the constant 7.\<close>

definition seed0 :: mt19937 where
  "seed0 = \<lparr>outputs = (\<lambda>i. 7 + 13 * i), drawn = 0\<rparr>"

definition seed7 :: mt19937 where
  "seed7 = \<lparr>outputs = (\<lambda>i. 7), drawn = 0\<rparr>"

section \<open>Predicates of the specification\<close>

text \<open>The five parameters of the hotspot scenario: capacity, operations, hot keys, cold keys, hot ratio.\<close>

definition hot_parameters :: "'c HotDataAccessTest \<Rightarrow> int \<times> int \<times> int \<times> int \<times> int" where
  "hot_parameters st = (capacity (config st), operations (config st), hotKeys st, coldKeys st, hotRatio st)"

text \<open>The invariant of the two ratios of \<^verbatim>\<open>LoopPatternTest\<close>.\<close>

definition loop_ratio_inv :: "'c LoopPatternTest \<Rightarrow> bool" where
  "loop_ratio_inv st \<longleftrightarrow>
     0 \<le> sequentialRatio st \<and> sequentialRatio st \<le> 100 \<and>
     0 \<le> randomRatio st \<and> randomRatio st \<le> 100 \<and>
     sequentialRatio st + randomRatio st \<le> 100"

text \<open>Reading the calls of a run: the gets, the hits among them, the key of a call, the pairs put.\<close>

fun is_get :: "call \<Rightarrow> bool" where
  "is_get (Get k r) = True"
| "is_get (Put k v) = False"

fun is_hit :: "call \<Rightarrow> bool" where
  "is_hit (Get k r) = (r \<noteq> None)"
| "is_hit (Put k v) = False"

fun call_key :: "call \<Rightarrow> int" where
  "call_key (Get k r) = k"
| "call_key (Put k v) = k"

fun put_pairs :: "call list \<Rightarrow> (int \<times> string) list" where
  "put_pairs [] = []"
| "put_pairs (Put k v # cs) = (k, v) # put_pairs cs"
| "put_pairs (Get k r # cs) = put_pairs cs"

text \<open>
  The no-phantoms guarantee of the specification (section 8, universal invariant 4) for
  a cache behind the interface: whatever calls a newly constructed cache has received,
  \<^verbatim>\<open>get(k)\<close> returns a value only if that value was passed to an earlier \<^verbatim>\<open>put(k, _)\<close>.
  \<open>reach P s h\<close>: the cache \<open>s\<close> results from a new cache by calls whose puts, in
  order, are \<open>h\<close>.
\<close>

inductive reach :: "'c policy \<Rightarrow> 'c \<Rightarrow> (int \<times> string) list \<Rightarrow> bool" for P :: "'c policy" where
  reach_new: "reach P (cache_new P t c) []"
| reach_put: "reach P s h \<Longrightarrow> reach P (cache_put P k v s) (h @ [(k, v)])"
| reach_get: "reach P s h \<Longrightarrow> reach P (snd (cache_get P k s)) h"

definition no_phantoms :: "'c policy \<Rightarrow> bool" where
  "no_phantoms P \<longleftrightarrow>
     (\<forall>s h k v. reach P s h \<longrightarrow> fst (cache_get P k s) = Some v \<longrightarrow> (k, v) \<in> set h)"

text \<open>
  The objects of class \<^verbatim>\<open>HotDataAccessTest\<close>: what the constructor returns, and what
  the public member functions make of an object.
\<close>

inductive hot_object :: "'c policy \<Rightarrow> 'c HotDataAccessTest \<Rightarrow> bool" for P :: "'c policy" where
  hot_new: "hot_object P (HotDataAccessTest_new P g)"
| hot_setCapacity: "hot_object P st \<Longrightarrow> setCapacity P c st = Inr st' \<Longrightarrow> hot_object P st'"
| hot_setOperations: "hot_object P st \<Longrightarrow> hot_object P (setOperations n st)"
| hot_setShowProgressBar: "hot_object P st \<Longrightarrow> hot_object P (setShowProgressBar b st)"
| hot_setProgressInterval: "hot_object P st \<Longrightarrow> hot_object P (setProgressInterval n st)"
| hot_setHotKeys: "hot_object P st \<Longrightarrow> hot_object P (setHotKeys n st)"
| hot_setColdKeys: "hot_object P st \<Longrightarrow> hot_object P (setColdKeys n st)"
| hot_setHotRatio: "hot_object P st \<Longrightarrow> hot_object P (setHotRatio r st)"
| hot_run: "hot_object P st \<Longrightarrow> hot_runTestForCacheType P t st = Inr st' \<Longrightarrow> hot_object P st'"

text \<open>The key ranges of the hotspot test: hot keys \<open>[0, hotKeys)\<close>, cold keys \<open>[hotKeys, hotKeys + coldKeys)\<close>.\<close>

definition hot_key_range :: "'c HotDataAccessTest \<Rightarrow> int \<Rightarrow> int \<Rightarrow> bool" where
  "hot_key_range st op k =
     (if op mod 100 < hotRatio st then 0 \<le> k \<and> k < hotKeys st
      else hotKeys st \<le> k \<and> k < hotKeys st + coldKeys st)"

text \<open>
  The calls issued since the log was \<open>base\<close>; the two counters of policy \<open>t\<close> count
  the gets and the hits among them.
\<close>

definition new_calls :: "call list \<Rightarrow> ('c, 'z) CacheTest_scheme \<Rightarrow> call list" where
  "new_calls base s = drop (length base) (calls s)"

definition stats_inv :: "CacheType \<Rightarrow> call list \<Rightarrow> ('c, 'z) CacheTest_scheme \<Rightarrow> bool" where
  "stats_inv t base s \<longleftrightarrow>
     calls s = base @ new_calls base s \<and>
     operations_map s t = Some (int (length (filter is_get (new_calls base s)))) \<and>
     hits s t = Some (int (length (filter is_hit (new_calls base s))))"

text \<open>
  One iteration of an access loop: one get, logged with its result, then no further
  get; \<^verbatim>\<open>operations[type]\<close> grows by one and \<^verbatim>\<open>hits[type]\<close> by one exactly when the get
  returned a value.  A counter without entry reads 0, as \<^verbatim>\<open>std::map::operator[]\<close> has it.
\<close>

definition access_step :: "'c policy \<Rightarrow> CacheType \<Rightarrow> ('c, 'z) CacheTest_scheme \<Rightarrow> ('c, 'z) CacheTest_scheme \<Rightarrow> bool" where
  "access_step P t s s' \<longleftrightarrow>
     (\<exists>k rest. calls s' = calls s @ Get k (fst (cache_get P k (getCache t s))) # rest \<and>
        filter is_get rest = [] \<and>
        counter (operations_map s') t = counter (operations_map s) t + 1 \<and>
        counter (hits s') t =
          counter (hits s) t + (if fst (cache_get P k (getCache t s)) \<noteq> None then 1 else 0))"

text \<open>
  A log of calls is consistent with a cache if every logged result is the one the cache
  returns at that point; \<open>replay\<close> is the cache after the calls of a log.
\<close>

fun consistent :: "'c policy \<Rightarrow> 'c \<Rightarrow> call list \<Rightarrow> bool" where
  "consistent P c [] = True"
| "consistent P c (Put k v # cs) = consistent P (cache_put P k v c) cs"
| "consistent P c (Get k r # cs) = (r = fst (cache_get P k c) \<and> consistent P (snd (cache_get P k c)) cs)"

fun replay :: "'c policy \<Rightarrow> 'c \<Rightarrow> call list \<Rightarrow> 'c" where
  "replay P c [] = c"
| "replay P c (Put k v # cs) = replay P (cache_put P k v c) cs"
| "replay P c (Get k r # cs) = replay P (snd (cache_get P k c)) cs"

text \<open>
  A state with the configuration and the members of the derived class of another one;
  \<open>run_inv\<close> relates the state \<open>st\<close> at the start of a run for policy \<open>t\<close> to a later
  state of that run: only the cache of \<open>t\<close>, its two counters, the generator and the log
  have changed, and the log tells what the cache received.
\<close>

definition same_setup :: "('c, 'z) CacheTest_scheme \<Rightarrow> ('c, 'z) CacheTest_scheme \<Rightarrow> bool" where
  "same_setup st s \<longleftrightarrow> config s = config st \<and> CacheTest.more s = CacheTest.more st"

definition run_inv :: "'c policy \<Rightarrow> CacheType \<Rightarrow> ('c, 'z) CacheTest_scheme \<Rightarrow> ('c, 'z) CacheTest_scheme \<Rightarrow> bool" where
  "run_inv P t st s \<longleftrightarrow>
     same_setup st s \<and> stats_inv t (calls st) s \<and>
     consistent P (getCache t st) (new_calls (calls st) s) \<and>
     getCache t s = replay P (getCache t st) (new_calls (calls st) s) \<and>
     (\<forall>t'. t' \<noteq> t \<longrightarrow> getCache t' s = getCache t' st)"

text \<open>
  The key counts for which the hot and cold keys stay in their ranges, and the form of the
  puts and gets of the hotspot test.
\<close>

definition hot_pre :: "'c HotDataAccessTest \<Rightarrow> bool" where
  "hot_pre st \<longleftrightarrow> 0 < hotKeys st \<and> 0 < coldKeys st \<and> hotKeys st + coldKeys st \<le> 2 ^ 31"

definition hot_put_call :: "'c HotDataAccessTest \<Rightarrow> int \<Rightarrow> call \<Rightarrow> bool" where
  "hot_put_call st i c \<longleftrightarrow>
     (\<exists>k. c = Put k (''value'' @ to_string k) \<and> (hot_pre st \<longrightarrow> hot_key_range st i k))"

definition hot_get_call :: "'c HotDataAccessTest \<Rightarrow> int \<Rightarrow> call \<Rightarrow> bool" where
  "hot_get_call st i c \<longleftrightarrow> (\<exists>k r. c = Get k r \<and> (hot_pre st \<longrightarrow> hot_key_range st i k))"

text \<open>
  Every cache of the object has received only puts of \<^verbatim>\<open>"value" + std::to_string(key)\<close>.
\<close>

definition hot_history :: "'c policy \<Rightarrow> 'c HotDataAccessTest \<Rightarrow> bool" where
  "hot_history P st \<longleftrightarrow>
     (\<forall>t. \<exists>h. reach P (getCache t st) h \<and> (\<forall>(k, v)\<in>set h. v = ''value'' @ to_string k))"

text \<open>
  What \<^verbatim>\<open>showProgress\<close> and the loop counter need: \<^verbatim>\<open>config.operations\<close> is an \<^verbatim>\<open>int\<close>, and
  the progress interval is not zero while the progress bar is shown
  (\<^verbatim>\<open>current % config.progressInterval\<close>).  With it, positive key counts make a run of the
  hotspot test return.
\<close>

definition progress_ok :: "('c, 'z) CacheTest_scheme \<Rightarrow> bool" where
  "progress_ok st \<longleftrightarrow>
     in_int (operations (config st)) \<and> (showProgressBar (config st) \<longrightarrow> progressInterval (config st) \<noteq> 0)"

definition hot_total_pre :: "'c HotDataAccessTest \<Rightarrow> bool" where
  "hot_total_pre st \<longleftrightarrow>
     progress_ok st \<and> 0 < hotKeys st \<and> in_int (hotKeys st) \<and> 0 < coldKeys st \<and> in_int (coldKeys st)"

text \<open>
  The invariants of the three cores that bound the resident entries by the capacity
  (section 8: the capacity bound of each policy; for LFU also distinct keys and a
  non-empty bucket \<open>F[min_freq]\<close>, which make the eviction of a full cache remove a node).
\<close>

definition lru_inv :: "('k, 'v) lru \<Rightarrow> bool" where
  "lru_inv s \<longleftrightarrow> length (lru_L s) \<le> lru_c s"

definition lfu_inv :: "('k, 'v) lfu \<Rightarrow> bool" where
  "lfu_inv s \<longleftrightarrow>
     length (lfu_nodes s) \<le> lfu_c s \<and> distinct (map fst (lfu_nodes s)) \<and>
     (lfu_nodes s \<noteq> [] \<longrightarrow> bucket (min_freq s) (lfu_nodes s) \<noteq> [])"

definition arc_inv :: "('k, 'v) arc \<Rightarrow> bool" where
  "arc_inv s \<longleftrightarrow>
     length (T1 s) + length (T2 s) \<le> arc_c s \<and>
     length (T1 s) + length (B1 s) \<le> arc_c s \<and>
     arc_p s \<le> arc_c s"

fun cache_inv :: "('k, 'v) cache \<Rightarrow> bool" where
  "cache_inv (LruCache s) = lru_inv s"
| "cache_inv (LfuCache s) = lfu_inv s"
| "cache_inv (ArcCache s) = arc_inv s"

text \<open>
  The pairs \<open>(key, value)\<close> a cache holds.
\<close>

definition node_pairs :: "('k \<times> 'v \<times> nat) list \<Rightarrow> ('k \<times> 'v) set" where
  "node_pairs ns = (\<lambda>e. (fst e, fst (snd e))) ` set ns"

definition arc_pairs :: "('k, 'v) arc \<Rightarrow> ('k \<times> 'v) set" where
  "arc_pairs s = set (T1 s) \<union> set (T2 s)"

fun contents :: "('k, 'v) cache \<Rightarrow> ('k \<times> 'v) set" where
  "contents (LruCache s) = set (lru_L s)"
| "contents (LfuCache s) = node_pairs (lfu_nodes s)"
| "contents (ArcCache s) = arc_pairs s"

text \<open>
  The scan position of \<^verbatim>\<open>LoopPatternTest\<close> before operation \<open>i\<close>: it starts at 0 and
  advances by one modulo \<open>loopSize\<close> at every operation with \<open>op % 100 < sequentialRatio\<close>.
  Then the loop sizes for which the keys stay in their ranges, the key of operation \<open>i\<close>
  and the form of its get.
\<close>

fun scan_pos :: "'c LoopPatternTest \<Rightarrow> nat \<Rightarrow> int" where
  "scan_pos st 0 = 0"
| "scan_pos st (Suc i) =
     (if int i mod 100 < sequentialRatio st then (scan_pos st i + 1) mod loopSize st else scan_pos st i)"

definition loop_pre :: "'c LoopPatternTest \<Rightarrow> bool" where
  "loop_pre st \<longleftrightarrow> 0 < loopSize st \<and> loopSize st \<le> 2 ^ 30"

definition loop_key_ok :: "'c LoopPatternTest \<Rightarrow> int \<Rightarrow> int \<Rightarrow> bool" where
  "loop_key_ok st i k =
     (if i mod 100 < sequentialRatio st then k = scan_pos st (nat i)
      else if i mod 100 < sequentialRatio st + randomRatio st then 0 \<le> k \<and> k < loopSize st
      else loopSize st \<le> k \<and> k < 2 * loopSize st)"

definition loop_get_call :: "'c LoopPatternTest \<Rightarrow> int \<Rightarrow> call \<Rightarrow> bool" where
  "loop_get_call st i c \<longleftrightarrow> (\<exists>k r. c = Get k r \<and> (loop_pre st \<longrightarrow> loop_key_ok st i k))"

text \<open>
  What makes a run of \<^verbatim>\<open>LoopPatternTest\<close> return: a progress interval that is not zero
  when the progress bar is shown, a loop size in \<open>(0, 2^30]\<close> and the invariant of the
  two ratios.
\<close>

definition loop_total_pre :: "'c LoopPatternTest \<Rightarrow> bool" where
  "loop_total_pre st \<longleftrightarrow> progress_ok st \<and> loop_pre st \<and> loop_ratio_inv st"

text \<open>A state that differs from another one only in the generator.\<close>

definition drew :: "('c, 'z) CacheTest_scheme \<Rightarrow> ('c, 'z) CacheTest_scheme \<Rightarrow> bool" where
  "drew s s1 \<longleftrightarrow> (\<exists>g. s1 = s\<lparr>gen := g\<rparr>)"

text \<open>
  The counters of policy \<open>t\<close> after a run that started in \<open>st\<close> and ended in \<open>st'\<close>:
  \<^verbatim>\<open>operations[type]\<close> is the number of operations configured (none when that number is
  negative) and the number of gets of the run, \<^verbatim>\<open>hits[type]\<close> is the number of gets of
  the run that returned \<^verbatim>\<open>true\<close>, between 0 and \<^verbatim>\<open>operations[type]\<close>; the configuration
  is the one the run started with.
\<close>

definition counted :: "CacheType \<Rightarrow> ('c, 'z) CacheTest_scheme \<Rightarrow> ('c, 'z) CacheTest_scheme \<Rightarrow> bool" where
  "counted t st st' \<longleftrightarrow>
     config st' = config st \<and>
     operations_map st' t = Some (max 0 (operations (config st))) \<and>
     int (length (filter is_get (new_calls (calls st) st'))) = max 0 (operations (config st)) \<and>
     hits st' t = Some (int (length (filter is_hit (new_calls (calls st) st')))) \<and>
     (\<exists>h. hits st' t = Some h \<and> 0 \<le> h \<and> h \<le> max 0 (operations (config st)))"

text \<open>
  What a run of \<^verbatim>\<open>WorkloadShiftTest\<close> needs besides its phases: a progress interval that is
  not zero when the progress bar is shown, and more than 100 initial keys (the mixed
  pattern computes \<^verbatim>\<open>gen() % (initialDataSize - 100)\<close>).  The members are \<^verbatim>\<open>int\<close>s.
\<close>

definition shift_total_pre :: "'c WorkloadShiftTest \<Rightarrow> bool" where
  "shift_total_pre st \<longleftrightarrow>
     progress_ok st \<and> 100 < initialDataSize st \<and> in_int (initialDataSize st) \<and> in_int (phases st)"




section \<open>Properties\<close>

lemma bindE_Inr [simp]: "bindE (Inr x) f = f x"
  by (simp add: bindE_def)

lemma bindE_Inl [simp]: "bindE (Inl e) f = Inl e"
  by (simp add: bindE_def)

lemma in_int_simps: "in_int x \<longleftrightarrow> - 2147483648 \<le> x \<and> x \<le> 2147483647"
  by (simp add: in_int_def INT_MIN_def INT_MAX_def)

subsection \<open>Arithmetic and loops\<close>

lemma sdiv_nonneg: "0 \<le> a \<Longrightarrow> 0 < b \<Longrightarrow> (a::int) sdiv b = a div b"
  by (simp add: signed_divide_int_def sgn_if)

lemma smod_nonneg: "0 \<le> a \<Longrightarrow> 0 < b \<Longrightarrow> (a::int) smod b = a mod b"
  by (simp add: signed_modulo_int_def sgn_if)

lemma int_mod_pos: "0 \<le> a \<Longrightarrow> in_int a \<Longrightarrow> 0 < b \<Longrightarrow> int_mod a b = Inr (a mod b)"
proof -
  assume a: "0 \<le> a" "in_int a" and b: "0 < b"
  have "in_int (a sdiv b)" using a sdiv_int_range [of a b] by (simp add: in_int_simps)
  then have "in_int (a div b)" using a b by (simp add: sdiv_nonneg)
  then show ?thesis using a b by (simp add: int_mod_def sdiv_nonneg smod_nonneg)
qed

lemma int_div_pos: "0 \<le> a \<Longrightarrow> in_int a \<Longrightarrow> 0 < b \<Longrightarrow> int_div a b = Inr (a div b)"
proof -
  assume a: "0 \<le> a" "in_int a" and b: "0 < b"
  have "in_int (a sdiv b)" using a sdiv_int_range [of a b] by (simp add: in_int_simps)
  then have "in_int (a div b)" using a b by (simp add: sdiv_nonneg)
  then show ?thesis using a b by (simp add: int_div_def checked_def sdiv_nonneg)
qed

lemma to_unsigned_pos: "0 \<le> d \<Longrightarrow> in_int d \<Longrightarrow> to_unsigned d = d"
  by (simp add: to_unsigned_def UMOD_def in_int_simps)

lemma urem_pos: "0 < d \<Longrightarrow> in_int d \<Longrightarrow> urem g d = Inr (g mod d)"
  by (simp add: urem_def to_unsigned_pos)

lemma to_int_small: "0 \<le> u \<Longrightarrow> u < 2 ^ 31 \<Longrightarrow> to_int u = u"
  by (simp add: to_int_def)

lemma uadd_small: "0 \<le> a \<Longrightarrow> in_int a \<Longrightarrow> 0 \<le> u \<Longrightarrow> u < 2 ^ 32 \<Longrightarrow> uadd a u = a + u"
  by (simp add: uadd_def to_unsigned_pos) (simp add: UMOD_def in_int_simps)

lemma draw_range: "0 \<le> fst (draw st) \<and> fst (draw st) < 2 ^ 32"
proof -
  have "outputs (gen st) (drawn (gen st)) mod 2 ^ 32 < (2 ^ 32 :: nat)" by simp
  then have "int (outputs (gen st) (drawn (gen st)) mod 2 ^ 32) < 2 ^ 32"
    by (metis of_nat_less_iff of_nat_numeral of_nat_power)
  then show ?thesis by (simp add: draw_def gen_draw_def)
qed

lemma for_loop_total:
  assumes "I i s" and "i \<le> n"
    and step: "\<And>j s. i \<le> j \<Longrightarrow> j < n \<Longrightarrow> I j s \<Longrightarrow> \<exists>s'. body j s = Inr s' \<and> I (j + 1) s'"
  shows "\<exists>s'. for_loop i n body s = Inr s' \<and> I n s'"
  using assms
proof (induction i n body s rule: for_loop.induct)
  case (1 i n body s)
  show ?case
  proof (cases "i < n")
    case True
    then obtain s1 where s1: "body i s = Inr s1" "I (i + 1) s1"
      using "1.prems"(1,3) by force
    have "\<exists>s'. for_loop (i + 1) n body s1 = Inr s' \<and> I n s'"
    proof (rule "1.IH" [OF True s1(1) s1(2)])
      show "i + 1 \<le> n" using True by simp
      fix j s assume "i + 1 \<le> j" "j < n" "I j s"
      then show "\<exists>s'. body j s = Inr s' \<and> I (j + 1) s'"
        using "1.prems"(3) [of j s] by simp
    qed
    then show ?thesis using True s1(1) by (subst for_loop.simps) simp
  next
    case False
    then have "i = n" using "1.prems"(2) by simp
    then show ?thesis using "1.prems"(1) by (subst for_loop.simps) simp
  qed
qed

lemma for_loop_partial:
  assumes "for_loop i n body s = Inr s'" and "I i s" and "i \<le> n"
    and step: "\<And>j s s1. i \<le> j \<Longrightarrow> j < n \<Longrightarrow> I j s \<Longrightarrow> body j s = Inr s1 \<Longrightarrow> I (j + 1) s1"
  shows "I n s'"
  using assms
proof (induction i n body s rule: for_loop.induct)
  case (1 i n body s)
  show ?case
  proof (cases "i < n")
    case True
    from "1.prems"(1) True obtain s1 where s1: "body i s = Inr s1" "for_loop (i + 1) n body s1 = Inr s'"
      by (subst (asm) for_loop.simps) (auto split: sum.splits)
    have "I (i + 1) s1" using "1.prems"(4) [of i s s1] True "1.prems"(2) s1(1) by simp
    show ?thesis
    proof (rule "1.IH" [OF True s1(1) s1(2) \<open>I (i + 1) s1\<close>])
      show "i + 1 \<le> n" using True by simp
      fix j s s2 assume "i + 1 \<le> j" "j < n" "I j s" "body j s = Inr s2"
      then show "I (j + 1) s2"
        using "1.prems"(4) [of j s s2] by simp
    qed
  next
    case False
    then have "i = n" using "1.prems"(3) by simp
    moreover have "s' = s" using "1.prems"(1) False by (subst (asm) for_loop.simps) simp
    ultimately show ?thesis using "1.prems"(2) by simp
  qed
qed

lemma for_loop_empty: "n \<le> i \<Longrightarrow> for_loop i n body s = Inr s"
  by (subst for_loop.simps) simp

lemma for_loop_error:
  assumes "I i s" and "i < n"
    and step: "\<And>j s. i \<le> j \<Longrightarrow> j < n \<Longrightarrow> I j s \<Longrightarrow> body j s = Inl e"
  shows "for_loop i n body s = Inl e"
  using assms by (subst for_loop.simps) simp

subsection \<open>Configuration of the tests\<close>

lemma clamp_ratio_range: "0 \<le> clamp_ratio r \<and> clamp_ratio r \<le> 100"
  by (simp add: clamp_ratio_def Let_def)

lemma clamp_ratio_id: "0 \<le> r \<Longrightarrow> r \<le> 100 \<Longrightarrow> clamp_ratio r = r"
  by (simp add: clamp_ratio_def Let_def)

lemma hot_new_parameters:
  "hot_parameters (HotDataAccessTest_new P g) = (50, 100000, 20, 5000, 70)"
  by (simp add: hot_parameters_def HotDataAccessTest_new_def CacheTest_new_def initCaches_def
      TestConfig_new_def CacheTest.extend_def HotDataAccessTest.fields_def)

lemma initCaches_Inr:
  assumes "0 \<le> capacity (config st)"
  shows "initCaches P st =
    Inr (st\<lparr>lruCache := cache_new P LRU (nat (capacity (config st))),
            lfuCache := cache_new P LFU (nat (capacity (config st))),
            arcCache := cache_new P ARC (nat (capacity (config st))),
            hits := (hits st)(LRU \<mapsto> 0, LFU \<mapsto> 0, ARC \<mapsto> 0),
            operations_map := (operations_map st)(LRU \<mapsto> 0, LFU \<mapsto> 0, ARC \<mapsto> 0)\<rparr>)"
  using assms by (simp add: initCaches_def make_cache_def bindE_def)

lemma initCaches_negative:
  assumes "capacity (config st) < 0"
  shows "initCaches P st = Inl CapacityInvalid"
  using assms by (simp add: initCaches_def make_cache_def bindE_def)

lemma CacheTest_new_initCaches:
  "initCaches P \<lparr>config = TestConfig_new, lruCache = l, lfuCache = f, arcCache = a,
     hits = Map.empty, operations_map = Map.empty, gen = g, calls = []\<rparr> = Inr (CacheTest_new P g)"
  by (simp add: initCaches_Inr TestConfig_new_def CacheTest_new_def)

lemma setCapacity_Inr:
  assumes "0 \<le> c"
  shows "setCapacity P c st =
    Inr (st\<lparr>config := (config st)\<lparr>capacity := c\<rparr>,
            lruCache := cache_new P LRU (nat c),
            lfuCache := cache_new P LFU (nat c),
            arcCache := cache_new P ARC (nat c),
            hits := (hits st)(LRU \<mapsto> 0, LFU \<mapsto> 0, ARC \<mapsto> 0),
            operations_map := (operations_map st)(LRU \<mapsto> 0, LFU \<mapsto> 0, ARC \<mapsto> 0)\<rparr>)"
  using assms by (simp add: setCapacity_def initCaches_Inr)

lemma setCapacity_negative:
  assumes "c < 0"
  shows "setCapacity P c st = Inl CapacityInvalid"
  using assms by (simp add: setCapacity_def initCaches_negative)

lemma setCapacity_eq_Inr:
  assumes "setCapacity P c st = Inr st'"
  shows "0 \<le> c"
    and "st' = st\<lparr>config := (config st)\<lparr>capacity := c\<rparr>,
            lruCache := cache_new P LRU (nat c),
            lfuCache := cache_new P LFU (nat c),
            arcCache := cache_new P ARC (nat c),
            hits := (hits st)(LRU \<mapsto> 0, LFU \<mapsto> 0, ARC \<mapsto> 0),
            operations_map := (operations_map st)(LRU \<mapsto> 0, LFU \<mapsto> 0, ARC \<mapsto> 0)\<rparr>"
proof -
  show c: "0 \<le> c"
  proof (rule ccontr)
    assume "\<not> 0 \<le> c"
    then have "setCapacity P c st = Inl CapacityInvalid" by (simp add: setCapacity_negative)
    then show False using assms by simp
  qed
  show "st' = st\<lparr>config := (config st)\<lparr>capacity := c\<rparr>,
            lruCache := cache_new P LRU (nat c),
            lfuCache := cache_new P LFU (nat c),
            arcCache := cache_new P ARC (nat c),
            hits := (hits st)(LRU \<mapsto> 0, LFU \<mapsto> 0, ARC \<mapsto> 0),
            operations_map := (operations_map st)(LRU \<mapsto> 0, LFU \<mapsto> 0, ARC \<mapsto> 0)\<rparr>"
    using assms setCapacity_Inr [OF c, of P st] by simp
qed

lemma main_hotTest_Inr:
  "main_hotTest P g =
     Inr (setHotRatio 70 (setColdKeys 5000 (setHotKeys 20 (setOperations 200000
       ((HotDataAccessTest_new P g)\<lparr>config := (config (HotDataAccessTest_new P g))\<lparr>capacity := 50\<rparr>,
            lruCache := cache_new P LRU 50,
            lfuCache := cache_new P LFU 50,
            arcCache := cache_new P ARC 50,
            hits := (hits (HotDataAccessTest_new P g))(LRU \<mapsto> 0, LFU \<mapsto> 0, ARC \<mapsto> 0),
            operations_map := (operations_map (HotDataAccessTest_new P g))(LRU \<mapsto> 0, LFU \<mapsto> 0, ARC \<mapsto> 0)\<rparr>)))))"
  by (simp add: main_hotTest_def setCapacity_Inr bindE_def)

lemma hot_main_parameters:
  "\<exists>st. main_hotTest P g = Inr st \<and> hot_parameters st = (50, 200000, 20, 5000, 70)"
  by (simp add: main_hotTest_Inr hot_parameters_def setHotRatio_def setColdKeys_def setHotKeys_def
      setOperations_def clamp_ratio_def HotDataAccessTest_new_def CacheTest_new_def
      TestConfig_new_def CacheTest.extend_def HotDataAccessTest.fields_def)

text \<open>
  Claim C1, as stated, fails: \<^verbatim>\<open>main()\<close> does not configure the hotspot test with the
  values the constructor uses as defaults, since the default number of operations
  differs from the one \<^verbatim>\<open>main()\<close> sets.
\<close>

theorem main_hotTest_differs_from_defaults:
  "\<exists>st. main_hotTest spec_policy seed0 = Inr st \<and>
     hot_parameters st \<noteq> hot_parameters (HotDataAccessTest_new spec_policy seed0)"
  using hot_main_parameters [of spec_policy seed0] by (auto simp add: hot_new_parameters)

text \<open>
  Claim C1, amended: \<^verbatim>\<open>main()\<close> sets the hotspot test to capacity 50, 200000 operations,
  20 hot keys, 5000 cold keys and a hot ratio of 70, the values of scenario E6.  The
  constructor's defaults are the same for the capacity, the hot keys, the cold keys and
  the hot ratio; the default number of operations is 100000.
\<close>

theorem main_hotTest_is_E6:
  "(\<exists>st. main_hotTest P g = Inr st \<and> hot_parameters st = (50, 200000, 20, 5000, 70)) \<and>
   hot_parameters (HotDataAccessTest_new P g) = (50, 100000, 20, 5000, 70)"
  by (simp add: hot_new_parameters hot_main_parameters)






lemma setCapacity_caches:
  assumes "setCapacity P c st = Inr st'"
  shows "lruCache st' = cache_new P LRU (nat c)"
    and "lfuCache st' = cache_new P LFU (nat c)"
    and "arcCache st' = cache_new P ARC (nat c)"
    and "capacity (config st') = c"
  by (simp_all add: setCapacity_eq_Inr(2) [OF assms])

lemma setCapacity_stats:
  assumes "setCapacity P c st = Inr st'"
  shows "hits st' t = Some 0"
    and "operations_map st' t = Some 0"
  by (cases t; simp add: setCapacity_eq_Inr(2) [OF assms])+

lemma getCache_setCapacity:
  assumes "setCapacity P c st = Inr st'"
  shows "getCache t st' = cache_new P t (nat c)"
  by (cases t) (simp_all add: getCache_def setCapacity_caches [OF assms])

text \<open>
  Claim C10: \<^verbatim>\<open>setCapacity(capacity)\<close>, for a capacity the constructors accept (one
  that is not negative: section 7 of the specification has a negative capacity rejected
  at construction), returns; it stores the capacity, replaces each of the three caches
  by a newly constructed one of that capacity and sets the hit and operation counters
  of all three policies to 0.  The caches and the counters after the call are the same
  whatever the test object held before: nothing recorded earlier survives.
\<close>

theorem setCapacity_recreates_caches_and_resets_statistics:
  assumes "0 \<le> c"
  shows "\<exists>st'. setCapacity P c st = Inr st' \<and>
     capacity (config st') = c \<and>
     lruCache st' = cache_new P LRU (nat c) \<and>
     lfuCache st' = cache_new P LFU (nat c) \<and>
     arcCache st' = cache_new P ARC (nat c) \<and>
     (\<forall>t. getCache t st' = cache_new P t (nat c) \<and>
          hits st' t = Some 0 \<and>
          operations_map st' t = Some 0) \<and>
     (\<exists>st0'. setCapacity P c st0 = Inr st0' \<and>
        (\<forall>t. getCache t st' = getCache t st0' \<and>
             hits st' t = hits st0' t \<and>
             operations_map st' t = operations_map st0' t))"
proof -
  obtain st' where r: "setCapacity P c st = Inr st'"
    using setCapacity_Inr [OF assms, of P st] by simp
  obtain st0' where r0: "setCapacity P c st0 = Inr st0'"
    using setCapacity_Inr [OF assms, of P st0] by simp
  show ?thesis
    using r r0 setCapacity_caches [OF r] setCapacity_stats [OF r] getCache_setCapacity [OF r]
      setCapacity_stats [OF r0] getCache_setCapacity [OF r0]
    by simp
qed

lemma CacheTest_new_counters:
  "hits (CacheTest_new P g) t = Some 0"
  "operations_map (CacheTest_new P g) t = Some 0"
  by (cases t; simp add: CacheTest_new_def)+

theorem setCapacity_recreates_caches_and_resets_statistics_witness:
  "(0::int) \<le> 4 \<and>
   (\<exists>st st'. doGet spec_policy LRU 1 (doPut spec_policy LRU 1 ''one'' (CacheTest_new spec_policy seed0)) = Inr st \<and>
      hits st LRU = Some 1 \<and> operations_map st LRU = Some 1 \<and>
      setCapacity spec_policy 4 st = Inr st' \<and>
      capacity (config st') = 4 \<and>
      (\<forall>t. getCache t st' = new_cache t 4 \<and> hits st' t = Some 0 \<and> operations_map st' t = Some 0) \<and>
      fst (cache_get spec_policy 1 (getCache LRU st)) = Some ''one'' \<and>
      fst (cache_get spec_policy 1 (getCache LRU st')) = None)"
proof -
  obtain st where g: "doGet spec_policy LRU 1 (doPut spec_policy LRU 1 ''one'' (CacheTest_new spec_policy seed0)) = Inr st"
    and h: "hits st LRU = Some 1" "operations_map st LRU = Some 1"
    and c: "fst (cache_get spec_policy 1 (getCache LRU st)) = Some ''one''"
    by (simp add: doGet_def doPut_def CacheTest_new_def getCache_def setCache_def counter_def
        bindE_def int_add_def checked_def in_int_simps Let_def
        spec_policy_def new_cache_def new_lru_def lru_put_def lru_get_def)
  from setCapacity_recreates_caches_and_resets_statistics [of 4 spec_policy st st]
  obtain st' where r: "setCapacity spec_policy 4 st = Inr st'" "capacity (config st') = 4"
    "\<forall>t. getCache t st' = cache_new spec_policy t (nat 4) \<and> hits st' t = Some 0 \<and> operations_map st' t = Some 0"
    by auto
  have n: "cache_new spec_policy = new_cache" by (simp add: spec_policy_def)
  have m: "fst (cache_get spec_policy 1 (getCache LRU st')) = None"
    using r(3) by (simp add: n spec_policy_def new_cache_def new_lru_def lru_get_def)
  show ?thesis using g h c r m by (auto simp add: n)
qed

subsection \<open>The steps of a run and its log\<close>

lemma snd_draw: "snd (draw st) = st\<lparr>gen := snd (gen_draw (gen st))\<rparr>"
  by (simp add: draw_def)

lemma getCache_updates [simp]:
  "getCache t (st\<lparr>gen := g\<rparr>) = getCache t st"
  "getCache t (st\<lparr>calls := cs\<rparr>) = getCache t st"
  "getCache t (st\<lparr>hits := h\<rparr>) = getCache t st"
  "getCache t (st\<lparr>operations_map := m\<rparr>) = getCache t st"
  "getCache t (st\<lparr>config := cf\<rparr>) = getCache t st"
  by (cases t; simp add: getCache_def)+

lemma setCache_fields [simp]:
  "config (setCache t c st) = config st"
  "hits (setCache t c st) = hits st"
  "operations_map (setCache t c st) = operations_map st"
  "gen (setCache t c st) = gen st"
  "calls (setCache t c st) = calls st"
  "CacheTest.more (setCache t c st) = CacheTest.more st"
  "getCache t (setCache t c st) = c"
  by (cases t; simp add: setCache_def getCache_def)+

lemma getCache_setCache_other [simp]: "t' \<noteq> t \<Longrightarrow> getCache t' (setCache t c st) = getCache t' st"
  by (cases t; cases t'; simp add: setCache_def getCache_def)

lemma doPut_base [simp]:
  "config (doPut P t k v st) = config st"
  "hits (doPut P t k v st) = hits st"
  "operations_map (doPut P t k v st) = operations_map st"
  "gen (doPut P t k v st) = gen st"
  "calls (doPut P t k v st) = calls st @ [Put k v]"
  "CacheTest.more (doPut P t k v st) = CacheTest.more st"
  "getCache t (doPut P t k v st) = cache_put P k v (getCache t st)"
  by (simp_all add: doPut_def)

lemma doPut_other [simp]: "t' \<noteq> t \<Longrightarrow> getCache t' (doPut P t k v st) = getCache t' st"
  by (simp add: doPut_def)

lemma checked_Inr: "checked x = Inr y \<longleftrightarrow> in_int x \<and> y = x"
  by (auto simp add: checked_def)

lemma int_add_Inr: "int_add a b = Inr y \<longleftrightarrow> in_int (a + b) \<and> y = a + b"
  by (simp add: int_add_def checked_Inr)

lemma int_sub_Inr: "int_sub a b = Inr y \<longleftrightarrow> in_int (a - b) \<and> y = a - b"
  by (simp add: int_sub_def checked_Inr)

lemma int_mul_Inr: "int_mul a b = Inr y \<longleftrightarrow> in_int (a * b) \<and> y = a * b"
  by (simp add: int_mul_def checked_Inr)

lemma bindE_eq_Inr: "bindE m f = Inr y \<longleftrightarrow> (\<exists>x. m = Inr x \<and> f x = Inr y)"
  by (cases m) simp_all

lemma doGet_eq:
  "doGet P t k st = Inr st' \<longleftrightarrow>
     in_int (counter (operations_map st) t + 1) \<and>
     (if fst (cache_get P k (getCache t st)) \<noteq> None
      then in_int (counter (hits st) t + 1) \<and>
           st' = (setCache t (snd (cache_get P k (getCache t st)))
                   (st\<lparr>operations_map := (operations_map st)(t \<mapsto> counter (operations_map st) t + 1)\<rparr>))
                 \<lparr>calls := calls st @ [Get k (fst (cache_get P k (getCache t st)))],
                  hits := (hits st)(t \<mapsto> counter (hits st) t + 1)\<rparr>
      else st' = (setCache t (snd (cache_get P k (getCache t st)))
                   (st\<lparr>operations_map := (operations_map st)(t \<mapsto> counter (operations_map st) t + 1)\<rparr>))
                 \<lparr>calls := calls st @ [Get k (fst (cache_get P k (getCache t st)))]\<rparr>)"
  by (auto simp add: doGet_def Let_def bindE_eq_Inr int_add_Inr)

lemma doGet_Inr:
  assumes "doGet P t k st = Inr st'"
  shows "config st' = config st" and "gen st' = gen st" and "CacheTest.more st' = CacheTest.more st"
    and "calls st' = calls st @ [Get k (fst (cache_get P k (getCache t st)))]"
    and "getCache t st' = snd (cache_get P k (getCache t st))"
    and "operations_map st' t = Some (counter (operations_map st) t + 1)"
    and "hits st' t = (if fst (cache_get P k (getCache t st)) \<noteq> None then Some (counter (hits st) t + 1) else hits st t)"
    and "in_int (counter (operations_map st) t + 1)"
  using assms unfolding doGet_eq by (simp_all split: if_splits)

lemma doGet_other:
  assumes "doGet P t k st = Inr st'" and "t' \<noteq> t"
  shows "getCache t' st' = getCache t' st"
  using assms unfolding doGet_eq by (simp split: if_splits)

lemma doGet_total:
  assumes "in_int (counter (operations_map st) t + 1)" and "in_int (counter (hits st) t + 1)"
  shows "\<exists>st'. doGet P t k st = Inr st'"
  using assms unfolding doGet_eq by (cases "fst (cache_get P k (getCache t st))") simp_all

lemma new_calls_append: "calls s = base @ xs \<Longrightarrow> new_calls base s = xs"
  by (simp add: new_calls_def)

lemma stats_inv_reset: "stats_inv t (calls st) (resetStats t st)"
  by (simp add: stats_inv_def resetStats_def new_calls_def)

lemma new_calls_reset [simp]: "new_calls (calls st) (resetStats t st) = []"
  by (simp add: resetStats_def new_calls_def)

lemma stats_inv_draw [simp]: "stats_inv t base (snd (draw s)) = stats_inv t base s"
  by (simp add: stats_inv_def snd_draw new_calls_def)

lemma new_calls_draw [simp]: "new_calls base (snd (draw s)) = new_calls base s"
  by (simp add: snd_draw new_calls_def)

lemma stats_inv_doPut:
  assumes "stats_inv t base s"
  shows "stats_inv t base (doPut P t k v s)"
    and "new_calls base (doPut P t k v s) = new_calls base s @ [Put k v]"
proof -
  have c: "calls s = base @ new_calls base s" using assms by (simp add: stats_inv_def)
  have c': "calls (doPut P t k v s) = base @ (new_calls base s @ [Put k v])"
    using c by simp
  show n: "new_calls base (doPut P t k v s) = new_calls base s @ [Put k v]"
    using c' by (rule new_calls_append)
  show "stats_inv t base (doPut P t k v s)"
    using assms c' unfolding stats_inv_def n by simp
qed

lemma stats_inv_doGet:
  assumes "stats_inv t base s" and "doGet P t k s = Inr s'"
  shows "stats_inv t base s'"
    and "new_calls base s' = new_calls base s @ [Get k (fst (cache_get P k (getCache t s)))]"
proof -
  note g = doGet_Inr [OF assms(2)]
  have c: "calls s = base @ new_calls base s" using assms by (simp add: stats_inv_def)
  have c': "calls s' = base @ (new_calls base s @ [Get k (fst (cache_get P k (getCache t s)))])"
    using c g(4) by simp
  show n: "new_calls base s' = new_calls base s @ [Get k (fst (cache_get P k (getCache t s)))]"
    using c' by (rule new_calls_append)
  show "stats_inv t base s'"
    using assms(1) c' g(6,7) unfolding stats_inv_def n by (simp add: counter_def)
qed

lemma hits_le_gets: "length (filter is_hit cs) \<le> length (filter is_get cs)"
proof (induction cs)
  case Nil
  show ?case by simp
next
  case (Cons c cs)
  then show ?case by (cases c) simp_all
qed

lemma doGet_access_step:
  assumes "doGet P t k s = Inr s'"
  shows "access_step P t s s'"
  unfolding access_step_def
  using doGet_Inr [OF assms]
  by (intro exI [of _ k] exI [of _ "[]"]) (simp add: counter_def)

lemma consistent_append:
  "consistent P c (xs @ ys) \<longleftrightarrow> consistent P c xs \<and> consistent P (replay P c xs) ys"
proof (induction xs arbitrary: c)
  case Nil
  show ?case by simp
next
  case (Cons x xs)
  then show ?case by (cases x) auto
qed

lemma replay_append: "replay P c (xs @ ys) = replay P (replay P c xs) ys"
proof (induction xs arbitrary: c)
  case Nil
  show ?case by simp
next
  case (Cons x xs)
  then show ?case by (cases x) auto
qed

lemma getCache_resetStats [simp]: "getCache t' (resetStats t st) = getCache t' st"
  by (simp add: resetStats_def)

lemma run_inv_reset: "run_inv P t st (resetStats t st)"
  unfolding run_inv_def
  by (simp add: stats_inv_reset) (simp add: same_setup_def resetStats_def)

lemma run_inv_draw: "run_inv P t st s \<Longrightarrow> run_inv P t st (snd (draw s))"
  unfolding run_inv_def by (simp add: same_setup_def) (simp add: snd_draw)

lemma run_inv_doPut:
  assumes "run_inv P t st s"
  shows "run_inv P t st (doPut P t k v s)"
proof -
  have si: "stats_inv t (calls st) s" using assms by (simp add: run_inv_def)
  note p = stats_inv_doPut [OF si, of P k v]
  show ?thesis
    using assms p(1) unfolding run_inv_def p(2)
    by (simp add: same_setup_def consistent_append replay_append)
qed

lemma run_inv_doGet:
  assumes "run_inv P t st s" and "doGet P t k s = Inr s'"
  shows "run_inv P t st s'"
proof -
  have si: "stats_inv t (calls st) s" using assms by (simp add: run_inv_def)
  note p = stats_inv_doGet [OF si assms(2)]
  note g = doGet_Inr [OF assms(2)]
  have o: "\<forall>t'. t' \<noteq> t \<longrightarrow> getCache t' s' = getCache t' st"
    using assms(1) doGet_other [OF assms(2)] by (simp add: run_inv_def)
  show ?thesis
    using assms(1) p(1) g(1,3,5) o unfolding run_inv_def p(2)
    by (simp add: same_setup_def consistent_append replay_append)
qed

lemma run_inv_new_calls: "run_inv P t st s \<Longrightarrow> calls s = calls st @ new_calls (calls st) s"
  by (simp add: run_inv_def stats_inv_def)

text \<open>What no-phantoms says about a log of calls.\<close>

lemma reach_replay:
  "reach P c h \<Longrightarrow> consistent P c cs \<Longrightarrow> reach P (replay P c cs) (h @ put_pairs cs)"
proof (induction cs arbitrary: c h)
  case Nil
  then show ?case by simp
next
  case (Cons x cs)
  show ?case
  proof (cases x)
    case (Put k v)
    have "reach P (cache_put P k v c) (h @ [(k, v)])" using Cons.prems(1) by (rule reach_put)
    from Cons.IH [OF this] Cons.prems(2) show ?thesis using Put by simp
  next
    case (Get k r)
    have "reach P (snd (cache_get P k c)) h" using Cons.prems(1) by (rule reach_get)
    from Cons.IH [OF this] Cons.prems(2) show ?thesis using Get by simp
  qed
qed

lemma put_pairs_append: "put_pairs (xs @ ys) = put_pairs xs @ put_pairs ys"
  by (induction xs rule: put_pairs.induct) simp_all

lemma no_phantoms_log:
  assumes "no_phantoms P" and "reach P c h" and "consistent P c cs" and "Get k (Some v) \<in> set cs"
  shows "(k, v) \<in> set h \<union> set (put_pairs cs)"
proof -
  from assms(4) obtain xs ys where cs: "cs = xs @ Get k (Some v) # ys"
    by (auto simp add: in_set_conv_decomp)
  have c1: "consistent P c xs" and c2: "consistent P (replay P c xs) (Get k (Some v) # ys)"
    using assms(3) unfolding cs consistent_append by simp_all
  have "reach P (replay P c xs) (h @ put_pairs xs)"
    using assms(2) c1 by (rule reach_replay)
  moreover have "fst (cache_get P k (replay P c xs)) = Some v" using c2 by simp
  ultimately have "(k, v) \<in> set (h @ put_pairs xs)"
    using assms(1) unfolding no_phantoms_def by blast
  then show ?thesis unfolding cs by (auto simp add: put_pairs_append)
qed

subsection \<open>The hotspot test\<close>

lemma hot_more_fields:
  fixes s st :: "'c HotDataAccessTest"
  assumes "CacheTest.more s = CacheTest.more st"
  shows "hotKeys s = hotKeys st" and "coldKeys s = coldKeys st" and "hotRatio s = hotRatio st"
proof -
  obtain a1 a2 a3 a4 a5 a6 a7 a8 a9 a10 a11 where s: "s = \<lparr>config = a1, lruCache = a2, lfuCache = a3, arcCache = a4,
      hits = a5, operations_map = a6, gen = a7, calls = a8, hotKeys = a9, coldKeys = a10, hotRatio = a11\<rparr>"
    by (cases s) auto
  obtain b1 b2 b3 b4 b5 b6 b7 b8 b9 b10 b11 where st: "st = \<lparr>config = b1, lruCache = b2, lfuCache = b3, arcCache = b4,
      hits = b5, operations_map = b6, gen = b7, calls = b8, hotKeys = b9, coldKeys = b10, hotRatio = b11\<rparr>"
    by (cases st) auto
  show "hotKeys s = hotKeys st" and "coldKeys s = coldKeys st" and "hotRatio s = hotRatio st"
    using assms unfolding s st by simp_all
qed

lemma hot_same_setup:
  fixes s st :: "'c HotDataAccessTest"
  assumes "same_setup st s"
  shows "hotKeys s = hotKeys st" and "coldKeys s = coldKeys st" and "hotRatio s = hotRatio st"
    and "config s = config st"
  using assms hot_more_fields [of s st] by (simp_all add: same_setup_def)

lemma int_mod_Inr: "int_mod a b = Inr m \<Longrightarrow> m = a smod b \<and> b \<noteq> 0"
  by (auto simp add: int_mod_def split: if_splits)


lemma hotKey_Inr: "hotKey op st = Inr (k, st1) \<Longrightarrow> st1 = snd (draw st)"
  by (auto simp add: hotKey_def bindE_eq_Inr split: if_splits)

lemma hotKey_range:
  assumes "0 \<le> op" and "hot_pre st" and "hotKey op st = Inr (k, st1)"
  shows "hot_key_range st op k"
proof -
  have hk: "0 < hotKeys st" "in_int (hotKeys st)" and ck: "0 < coldKeys st" "in_int (coldKeys st)"
    and sum: "hotKeys st + coldKeys st \<le> 2147483648"
    using assms(2) by (simp_all add: hot_pre_def in_int_simps)
  from assms(3) obtain m where m: "int_mod op 100 = Inr m"
    by (auto simp add: hotKey_def bindE_eq_Inr)
  have m': "m = op mod 100" using int_mod_Inr [OF m] assms(1) by (simp add: smod_nonneg)
  note g = draw_range [of st]
  show ?thesis
  proof (cases "m < hotRatio st")
    case True
    then have "k = to_int (fst (draw st) mod hotKeys st)"
      using assms(3) m hk by (simp add: hotKey_def urem_pos)
    moreover have "0 \<le> fst (draw st) mod hotKeys st" "fst (draw st) mod hotKeys st < hotKeys st"
      using hk by simp_all
    ultimately have "0 \<le> k \<and> k < hotKeys st"
      using hk sum ck by (simp add: to_int_small)
    then show ?thesis using True m' by (simp add: hot_key_range_def)
  next
    case False
    define u where "u = fst (draw st) mod coldKeys st"
    have u: "0 \<le> u" "u < coldKeys st" using ck by (simp_all add: u_def)
    have "k = to_int (uadd (hotKeys st) u)"
      using assms(3) m ck False by (simp add: hotKey_def urem_pos u_def)
    moreover have ub: "u < 2 ^ 32" "hotKeys st + u < 2 ^ 31"
      using u(2) hk(1) ck(1) sum by simp_all
    moreover have "uadd (hotKeys st) u = hotKeys st + u"
      using hk(1) hk(2) u(1) ub(1) by (rule uadd_small [OF less_imp_le])
    moreover have "0 \<le> hotKeys st + u" using hk(1) u(1) by linarith
    ultimately have "k = hotKeys st + u"
      by (simp add: to_int_small)
    then show ?thesis using False m' u by (simp add: hot_key_range_def)
  qed
qed

lemma hotKey_total:
  assumes "0 \<le> op" and "in_int op" and "0 < hotKeys st" and "in_int (hotKeys st)"
    and "0 < coldKeys st" and "in_int (coldKeys st)"
  shows "\<exists>k. hotKey op st = Inr (k, snd (draw st))"
  using assms by (simp add: hotKey_def int_mod_pos urem_pos)

lemma hot_put_body_Inr:
  assumes "hot_put_body P t op s = Inr s'"
  shows "\<exists>k. hotKey op s = Inr (k, snd (draw s)) \<and> s' = doPut P t k (''value'' @ to_string k) (snd (draw s))"
proof -
  from assms obtain k s1 where k: "hotKey op s = Inr (k, s1)"
    and s': "s' = doPut P t k (''value'' @ to_string k) s1"
    by (auto simp add: hot_put_body_def bindE_eq_Inr Let_def)
  show ?thesis using k s' hotKey_Inr [OF k] by simp
qed

lemma hot_get_body_Inr:
  assumes "hot_get_body P t op s = Inr s'"
  shows "\<exists>k. hotKey op s = Inr (k, snd (draw s)) \<and> doGet P t k (snd (draw s)) = Inr s'"
proof -
  from assms obtain k s1 where k: "hotKey op s = Inr (k, s1)"
    and s': "doGet P t k s1 = Inr s'"
    by (auto simp add: hot_get_body_def bindE_eq_Inr Let_def)
  show ?thesis using k s' hotKey_Inr [OF k] by simp
qed

lemma for_loop_invariant:
  assumes run: "for_loop i n body s = Inr s'" and init: "I i s"
    and step: "\<And>j s s1. i \<le> j \<Longrightarrow> j < n \<Longrightarrow> I j s \<Longrightarrow> body j s = Inr s1 \<Longrightarrow> I (j + 1) s1"
  shows "I (max i n) s'"
proof (cases "i \<le> n")
  case True
  have "I n s'" using run init True step by (rule for_loop_partial)
  then show ?thesis using True by (simp add: max_def)
next
  case False
  then have "s' = s" using run by (simp add: for_loop_empty)
  then show ?thesis using init False by (simp add: max_def)
qed

lemma draw_fields [simp]:
  "config (snd (draw s)) = config s"
  "calls (snd (draw s)) = calls s"
  "hits (snd (draw s)) = hits s"
  "operations_map (snd (draw s)) = operations_map s"
  "CacheTest.more (snd (draw s)) = CacheTest.more s"
  "getCache t (snd (draw s)) = getCache t s"
  by (simp_all add: snd_draw)

lemma hot_setup_eqs:
  fixes s st :: "'c HotDataAccessTest"
  assumes "same_setup st s"
  shows "hot_pre s = hot_pre st" and "hot_key_range s op k = hot_key_range st op k"
  using hot_same_setup [OF assms] by (simp_all add: hot_pre_def hot_key_range_def)

lemma run_inv_same: "run_inv P t st s \<Longrightarrow> same_setup st s"
  by (simp add: run_inv_def)

lemma hot_put_step:
  assumes b: "hot_put_body P t j s = Inr s1" and inv: "run_inv P t st s" and j: "0 \<le> j"
  shows "run_inv P t st s1"
    and "\<exists>c. new_calls (calls st) s1 = new_calls (calls st) s @ [c] \<and> hot_put_call st j c \<and> \<not> is_get c"
proof -
  from hot_put_body_Inr [OF b] obtain k where k: "hotKey j s = Inr (k, snd (draw s))"
    and s1: "s1 = doPut P t k (''value'' @ to_string k) (snd (draw s))" by blast
  have inv': "run_inv P t st (snd (draw s))" using inv by (rule run_inv_draw)
  show "run_inv P t st s1" unfolding s1 using inv' by (rule run_inv_doPut)
  have si: "stats_inv t (calls st) (snd (draw s))" using inv' by (simp add: run_inv_def)
  have n: "new_calls (calls st) s1 = new_calls (calls st) s @ [Put k (''value'' @ to_string k)]"
    unfolding s1 using stats_inv_doPut(2) [OF si] by simp
  have "hot_pre st \<longrightarrow> hot_key_range st j k"
    using hotKey_range [OF j _ k] hot_setup_eqs [OF run_inv_same [OF inv]] by simp
  then have "hot_put_call st j (Put k (''value'' @ to_string k))"
    by (auto simp add: hot_put_call_def)
  then show "\<exists>c. new_calls (calls st) s1 = new_calls (calls st) s @ [c] \<and> hot_put_call st j c \<and> \<not> is_get c"
    using n by simp
qed

lemma hot_get_step:
  assumes b: "hot_get_body P t j s = Inr s1" and inv: "run_inv P t st s" and j: "0 \<le> j"
  shows "run_inv P t st s1"
    and "\<exists>c. new_calls (calls st) s1 = new_calls (calls st) s @ [c] \<and> hot_get_call st j c \<and> is_get c"
    and "access_step P t s s1"
proof -
  from hot_get_body_Inr [OF b] obtain k where k: "hotKey j s = Inr (k, snd (draw s))"
    and g: "doGet P t k (snd (draw s)) = Inr s1" by blast
  have inv': "run_inv P t st (snd (draw s))" using inv by (rule run_inv_draw)
  show "run_inv P t st s1" using inv' g by (rule run_inv_doGet)
  have si: "stats_inv t (calls st) (snd (draw s))" using inv' by (simp add: run_inv_def)
  have n: "new_calls (calls st) s1 = new_calls (calls st) s @ [Get k (fst (cache_get P k (getCache t s)))]"
    using stats_inv_doGet(2) [OF si g] by simp
  have "hot_pre st \<longrightarrow> hot_key_range st j k"
    using hotKey_range [OF j _ k] hot_setup_eqs [OF run_inv_same [OF inv]] by simp
  then have "hot_get_call st j (Get k (fst (cache_get P k (getCache t s))))"
    by (auto simp add: hot_get_call_def)
  then show "\<exists>c. new_calls (calls st) s1 = new_calls (calls st) s @ [c] \<and> hot_get_call st j c \<and> is_get c"
    using n by simp
  show "access_step P t s s1"
    using doGet_access_step [OF g] by (simp add: access_step_def)
qed

lemma phase_loop:
  fixes f :: "'s \<Rightarrow> ('c, 'z) CacheTest_scheme"
  assumes loop: "for_loop 0 n body s0 = Inr s1"
    and inv0: "run_inv P t st (f s0)"
    and step: "\<And>j s s'. 0 \<le> j \<Longrightarrow> j < n \<Longrightarrow> run_inv P t st (f s) \<Longrightarrow> body j s = Inr s' \<Longrightarrow>
       run_inv P t st (f s') \<and>
       (\<exists>c. new_calls (calls st) (f s') = new_calls (calls st) (f s) @ [c] \<and> Q j c)"
  shows "run_inv P t st (f s1) \<and>
    (\<exists>cs. new_calls (calls st) (f s1) = new_calls (calls st) (f s0) @ cs \<and> length cs = nat n \<and>
       (\<forall>i<nat n. Q (int i) (cs ! i)))"
proof -
  define I where "I j s \<longleftrightarrow> 0 \<le> j \<and> run_inv P t st (f s) \<and>
    (\<exists>cs. new_calls (calls st) (f s) = new_calls (calls st) (f s0) @ cs \<and> length cs = nat j \<and>
       (\<forall>i<nat j. Q (int i) (cs ! i)))" for j s
  have "I (max 0 n) s1"
  proof (rule for_loop_invariant [OF loop])
    show "I 0 s0" using inv0 by (simp add: I_def)
  next
    fix j s s'
    assume j: "0 \<le> j" "j < n" and I: "I j s" and b: "body j s = Inr s'"
    from I obtain cs where inv: "run_inv P t st (f s)"
      and cs: "new_calls (calls st) (f s) = new_calls (calls st) (f s0) @ cs" "length cs = nat j"
        "\<forall>i<nat j. Q (int i) (cs ! i)"
      by (auto simp add: I_def)
    from step [OF j inv b] obtain c where inv': "run_inv P t st (f s')"
      and c: "new_calls (calls st) (f s') = new_calls (calls st) (f s) @ [c]" "Q j c"
      by blast
    have n1: "nat (j + 1) = Suc (nat j)" using j(1) by simp
    have "\<forall>i<Suc (nat j). Q (int i) ((cs @ [c]) ! i)"
    proof (intro allI impI)
      fix i assume "i < Suc (nat j)"
      then consider "i < nat j" | "i = nat j" by linarith
      then show "Q (int i) ((cs @ [c]) ! i)"
      proof cases
        case 1
        then show ?thesis using cs(2,3) by (simp add: nth_append)
      next
        case 2
        then show ?thesis using cs(2) c(2) j(1) by (simp add: nth_append)
      qed
    qed
    moreover have "new_calls (calls st) (f s') = new_calls (calls st) (f s0) @ (cs @ [c])"
      using c(1) cs(1) by simp
    moreover have "length (cs @ [c]) = Suc (nat j)" using cs(2) by simp
    ultimately show "I (j + 1) s'"
      unfolding I_def n1 using inv' j(1) by (intro conjI exI [of _ "cs @ [c]"]) simp_all
  qed
  moreover have "nat (max 0 n) = nat n" by simp
  ultimately show ?thesis unfolding I_def by simp
qed

lemma hot_run_log:
  assumes run: "hot_runTestForCacheType P t st = Inr st'"
  shows "run_inv P t st st' \<and>
    (\<exists>puts gets. new_calls (calls st) st' = puts @ gets \<and>
       length puts = nat (operations (config st)) \<and> length gets = nat (operations (config st)) \<and>
       (\<forall>i<nat (operations (config st)). hot_put_call st (int i) (puts ! i)) \<and>
       (\<forall>i<nat (operations (config st)). hot_get_call st (int i) (gets ! i)))"
proof -
  let ?n = "operations (config st)"
  from run obtain s1 where l1: "for_loop 0 ?n (hot_put_body P t) (resetStats t st) = Inr s1"
    and l2: "for_loop 0 (operations (config s1)) (hot_get_body P t) s1 = Inr st'"
    by (auto simp add: hot_runTestForCacheType_def bindE_eq_Inr)
  have p1: "run_inv P t st s1 \<and>
    (\<exists>cs. new_calls (calls st) s1 = new_calls (calls st) (resetStats t st) @ cs \<and> length cs = nat ?n \<and>
       (\<forall>i<nat ?n. hot_put_call st (int i) (cs ! i)))"
  proof (rule phase_loop [where f = "\<lambda>s. s", OF l1])
    show "run_inv P t st (resetStats t st)" by (rule run_inv_reset)
  next
    fix j s s'
    assume "0 \<le> j" "j < ?n" "run_inv P t st s" "hot_put_body P t j s = Inr s'"
    then show "run_inv P t st s' \<and>
       (\<exists>c. new_calls (calls st) s' = new_calls (calls st) s @ [c] \<and> hot_put_call st j c)"
      using hot_put_step [of P t j s s' st] by blast
  qed
  then obtain puts where inv1: "run_inv P t st s1" and puts: "new_calls (calls st) s1 = puts"
    "length puts = nat ?n" "\<forall>i<nat ?n. hot_put_call st (int i) (puts ! i)"
    by auto
  have n1: "operations (config s1) = ?n" using run_inv_same [OF inv1] by (simp add: same_setup_def)
  have p2: "run_inv P t st st' \<and>
    (\<exists>cs. new_calls (calls st) st' = new_calls (calls st) s1 @ cs \<and> length cs = nat ?n \<and>
       (\<forall>i<nat ?n. hot_get_call st (int i) (cs ! i)))"
  proof (rule phase_loop [where f = "\<lambda>s. s", OF l2 [unfolded n1]])
    show "run_inv P t st s1" by (rule inv1)
  next
    fix j s s'
    assume "0 \<le> j" "j < ?n" "run_inv P t st s" "hot_get_body P t j s = Inr s'"
    then show "run_inv P t st s' \<and>
       (\<exists>c. new_calls (calls st) s' = new_calls (calls st) s @ [c] \<and> hot_get_call st j c)"
      using hot_get_step [of P t j s s' st] by blast
  qed
  then show ?thesis using puts by auto
qed

lemma put_pairs_all:
  assumes "\<forall>c\<in>set cs. \<forall>k v. c = Put k v \<longrightarrow> Q k v"
  shows "\<forall>(k, v)\<in>set (put_pairs cs). Q k v"
  using assms by (induction cs rule: put_pairs.induct) auto

lemma hot_put_call_value: "hot_put_call st i (Put k v) \<Longrightarrow> v = ''value'' @ to_string k"
  by (auto simp add: hot_put_call_def)

lemma hot_get_call_not_put: "\<not> hot_get_call st i (Put k v)"
  by (auto simp add: hot_get_call_def)

lemma hot_run_values:
  assumes run: "hot_runTestForCacheType P t st = Inr st'"
  shows "\<forall>c\<in>set (new_calls (calls st) st'). \<forall>k v. c = Put k v \<longrightarrow> v = ''value'' @ to_string k"
proof -
  from hot_run_log [OF run] obtain puts gets where n: "new_calls (calls st) st' = puts @ gets"
    and p: "\<forall>i<length puts. hot_put_call st (int i) (puts ! i)"
    and g: "\<forall>i<length gets. hot_get_call st (int i) (gets ! i)"
    by auto
  have "\<forall>c\<in>set puts. \<forall>k v. c = Put k v \<longrightarrow> v = ''value'' @ to_string k"
    using p by (metis in_set_conv_nth hot_put_call_value)
  moreover have "\<forall>c\<in>set gets. \<forall>k v. c = Put k v \<longrightarrow> v = ''value'' @ to_string k"
    using g by (metis in_set_conv_nth hot_get_call_not_put)
  ultimately show ?thesis unfolding n by auto
qed

lemma hot_history_fresh:
  assumes "\<And>t. getCache t st = cache_new P t c"
  shows "hot_history P st"
  unfolding hot_history_def
proof
  fix t
  have "reach P (cache_new P t c) []" by (rule reach_new)
  then show "\<exists>h. reach P (getCache t st) h \<and> (\<forall>(k, v)\<in>set h. v = ''value'' @ to_string k)"
    using assms [of t] by (intro exI [of _ "[]"]) simp
qed

lemma hot_history_same:
  assumes "hot_history P st" and "\<And>t. getCache t st' = getCache t st"
  shows "hot_history P st'"
  using assms by (simp add: hot_history_def)

lemma hot_history_run:
  assumes h: "hot_history P st" and run: "hot_runTestForCacheType P t st = Inr st'"
  shows "hot_history P st'"
  unfolding hot_history_def
proof
  fix t'
  from hot_run_log [OF run] have inv: "run_inv P t st st'" by simp
  show "\<exists>h. reach P (getCache t' st') h \<and> (\<forall>(k, v)\<in>set h. v = ''value'' @ to_string k)"
  proof (cases "t' = t")
    case True
    from h obtain h0 where h0: "reach P (getCache t st) h0" "\<forall>(k, v)\<in>set h0. v = ''value'' @ to_string k"
      by (auto simp add: hot_history_def)
    let ?new = "new_calls (calls st) st'"
    have "reach P (replay P (getCache t st) ?new) (h0 @ put_pairs ?new)"
      using h0(1) inv by (intro reach_replay) (simp_all add: run_inv_def)
    moreover have "getCache t st' = replay P (getCache t st) ?new" using inv by (simp add: run_inv_def)
    moreover have "\<forall>(k, v)\<in>set (put_pairs ?new). v = ''value'' @ to_string k"
      using hot_run_values [OF run] by (rule put_pairs_all)
    ultimately show ?thesis using h0(2) True by (intro exI [of _ "h0 @ put_pairs ?new"]) auto
  next
    case False
    then have "getCache t' st' = getCache t' st" using inv by (simp add: run_inv_def)
    then show ?thesis using h by (simp add: hot_history_def)
  qed
qed

lemma new_hot_fields:
  "hotKeys (HotDataAccessTest_new P g) = 20"
  "coldKeys (HotDataAccessTest_new P g) = 5000"
  "hotRatio (HotDataAccessTest_new P g) = 70"
  "gen (HotDataAccessTest_new P g) = g"
  "config (HotDataAccessTest_new P g) = TestConfig_new"
  "calls (HotDataAccessTest_new P g) = []"
  by (simp_all add: HotDataAccessTest_new_def CacheTest.extend_def HotDataAccessTest.fields_def
      CacheTest_new_def initCaches_def)

lemma getCache_hot_new: "getCache t (HotDataAccessTest_new P g) = cache_new P t 50"
  by (cases t) (simp_all add: getCache_def HotDataAccessTest_new_def CacheTest.extend_def
      CacheTest_new_def initCaches_def TestConfig_new_def)

lemma getCache_hot_setters [simp]:
  "getCache t (setOperations n st) = getCache t st"
  "getCache t (setShowProgressBar b st) = getCache t st"
  "getCache t (setProgressInterval n st) = getCache t st"
  "getCache t (setHotKeys n hs) = getCache t hs"
  "getCache t (setColdKeys n hs) = getCache t hs"
  "getCache t (setHotRatio n hs) = getCache t hs"
  by (cases t; simp add: getCache_def setOperations_def setShowProgressBar_def setProgressInterval_def
      setHotKeys_def setColdKeys_def setHotRatio_def)+

lemma hotRatio_setters [simp]:
  "hotRatio (setOperations n hs) = hotRatio hs"
  "hotRatio (setShowProgressBar b hs) = hotRatio hs"
  "hotRatio (setProgressInterval n hs) = hotRatio hs"
  "hotRatio (setHotKeys n hs) = hotRatio hs"
  "hotRatio (setColdKeys n hs) = hotRatio hs"
  "hotRatio (setHotRatio n hs) = clamp_ratio n"
  by (simp_all add: setOperations_def setShowProgressBar_def setProgressInterval_def
      setHotKeys_def setColdKeys_def setHotRatio_def)

lemma hot_object_invariant:
  assumes "hot_object P st"
  shows "hot_history P st \<and> 0 \<le> hotRatio st \<and> hotRatio st \<le> 100"
  using assms
proof (induction rule: hot_object.induct)
  case (hot_new g)
  have "hot_history P (HotDataAccessTest_new P g)"
    by (rule hot_history_fresh) (rule getCache_hot_new)
  then show ?case by (simp add: new_hot_fields)
next
  case (hot_setCapacity st c st')
  have "hot_history P st'"
    by (rule hot_history_fresh) (rule getCache_setCapacity [OF hot_setCapacity.hyps(2)])
  moreover have "hotRatio st' = hotRatio st"
    by (simp add: setCapacity_eq_Inr(2) [OF hot_setCapacity.hyps(2)])
  ultimately show ?case using hot_setCapacity.IH by simp
next
  case (hot_setOperations st n)
  then show ?case using hot_history_same [of P st "setOperations n st"] by simp
next
  case (hot_setShowProgressBar st b)
  then show ?case using hot_history_same [of P st "setShowProgressBar b st"] by simp
next
  case (hot_setProgressInterval st n)
  then show ?case using hot_history_same [of P st "setProgressInterval n st"] by simp
next
  case (hot_setHotKeys st n)
  then show ?case using hot_history_same [of P st "setHotKeys n st"] by simp
next
  case (hot_setColdKeys st n)
  then show ?case using hot_history_same [of P st "setColdKeys n st"] by simp
next
  case (hot_setHotRatio st r)
  then show ?case using hot_history_same [of P st "setHotRatio r st"] clamp_ratio_range [of r] by simp
next
  case (hot_run st t st')
  have "hot_history P st'" using hot_run.IH hot_run.hyps(2) hot_history_run by blast
  moreover have "hotRatio st' = hotRatio st"
    using hot_run_log [OF hot_run.hyps(2)] hot_same_setup(3) [OF run_inv_same] by blast
  ultimately show ?case using hot_run.IH by simp
qed

lemma hot_run_phantom_free:
  assumes np: "no_phantoms P" and h: "hot_history P st"
    and run: "hot_runTestForCacheType P t st = Inr st'"
  shows "calls st' = calls st @ new_calls (calls st) st' \<and>
    (\<forall>c\<in>set (new_calls (calls st) st').
       case c of Put k v \<Rightarrow> v = ''value'' @ to_string k
       | Get k r \<Rightarrow> r = None \<or> r = Some (''value'' @ to_string k))"
proof -
  let ?new = "new_calls (calls st) st'"
  from hot_run_log [OF run] have inv: "run_inv P t st st'" by simp
  from h obtain h0 where h0: "reach P (getCache t st) h0" "\<forall>(k, v)\<in>set h0. v = ''value'' @ to_string k"
    by (auto simp add: hot_history_def)
  have cons: "consistent P (getCache t st) ?new" using inv by (simp add: run_inv_def)
  have pv: "\<forall>(k, v)\<in>set (put_pairs ?new). v = ''value'' @ to_string k"
    using hot_run_values [OF run] by (rule put_pairs_all)
  have "case c of Put k v \<Rightarrow> v = ''value'' @ to_string k
       | Get k r \<Rightarrow> r = None \<or> r = Some (''value'' @ to_string k)" if c: "c \<in> set ?new" for c
  proof (cases c)
    case (Put k v)
    then show ?thesis using hot_run_values [OF run] c by simp
  next
    case (Get k r)
    show ?thesis
    proof (cases r)
      case None
      then show ?thesis using Get by simp
    next
      case (Some v)
      have "(k, v) \<in> set h0 \<union> set (put_pairs ?new)"
        using np h0(1) cons c unfolding Get Some by (rule no_phantoms_log)
      then have "v = ''value'' @ to_string k" using h0(2) pv by auto
      then show ?thesis using Get Some by simp
    qed
  qed
  then show ?thesis using run_inv_new_calls [OF inv] by blast
qed

lemma sdiv_in_int: "0 \<le> a \<Longrightarrow> in_int a \<Longrightarrow> in_int (a sdiv b)"
  using sdiv_int_range [of a b] by (simp add: in_int_simps)

lemma int_mod_total: "b \<noteq> 0 \<Longrightarrow> 0 \<le> a \<Longrightarrow> in_int a \<Longrightarrow> int_mod a b = Inr (a smod b)"
  by (simp add: int_mod_def sdiv_in_int)

lemma int_div_total: "b \<noteq> 0 \<Longrightarrow> 0 \<le> a \<Longrightarrow> in_int a \<Longrightarrow> int_div a b = Inr (a sdiv b)"
  by (simp add: int_div_def checked_def sdiv_in_int)

lemma showProgress_total:
  assumes "showProgressBar (config s) \<longrightarrow> progressInterval (config s) \<noteq> 0" and "0 \<le> cur" and "in_int cur"
  shows "showProgress s cur tot = Inr ()"
  using assms by (auto simp add: showProgress_def int_mod_total)

lemma next_index:
  assumes "0 \<le> j" and "j < n" and "in_int n"
  shows "int_add j 1 = Inr (j + 1)" and "0 \<le> j + 1" and "in_int (j + 1)" and "in_int j"
  using assms by (simp_all add: int_add_def checked_def in_int_simps)

lemma doGet_total_inv:
  assumes "stats_inv t base s" and "int (length (filter is_get (new_calls base s))) < 2147483647"
  shows "\<exists>s'. doGet P t k s = Inr s'"
proof (rule doGet_total)
  have o: "counter (operations_map s) t = int (length (filter is_get (new_calls base s)))"
    and h: "counter (hits s) t = int (length (filter is_hit (new_calls base s)))"
    using assms(1) by (simp_all add: stats_inv_def counter_def)
  show "in_int (counter (operations_map s) t + 1)" using assms(2) o by (simp add: in_int_simps)
  have "int (length (filter is_hit (new_calls base s))) \<le> int (length (filter is_get (new_calls base s)))"
    using hits_le_gets [of "new_calls base s"] by simp
  then show "in_int (counter (hits s) t + 1)" using assms(2) h by (simp add: in_int_simps)
qed

lemma hot_put_body_total:
  assumes pre: "hot_total_pre st" and same: "same_setup st s" and j: "0 \<le> j" "j < operations (config st)"
  shows "\<exists>s'. hot_put_body P t j s = Inr s'"
proof -
  have n: "in_int (operations (config st))" and pr: "showProgressBar (config st) \<longrightarrow> progressInterval (config st) \<noteq> 0"
    using pre by (simp_all add: hot_total_pre_def progress_ok_def)
  note e = hot_same_setup [OF same]
  note i = next_index [OF j n]
  have "\<exists>k. hotKey j s = Inr (k, snd (draw s))"
    using pre j i(4) e by (intro hotKey_total) (simp_all add: hot_total_pre_def)
  then obtain k where k: "hotKey j s = Inr (k, snd (draw s))" by blast
  have "showProgress (doPut P t k (''value'' @ to_string k) (snd (draw s))) (j + 1) (operations (config s)) = Inr ()"
    using pr i e by (intro showProgress_total) simp_all
  then show ?thesis using k i(1) by (simp add: hot_put_body_def Let_def)
qed

lemma hot_get_body_total:
  assumes pre: "hot_total_pre st" and inv: "run_inv P t st s" and j: "0 \<le> j" "j < operations (config st)"
    and cnt: "length (filter is_get (new_calls (calls st) s)) \<le> nat j"
  shows "\<exists>s'. hot_get_body P t j s = Inr s'"
proof -
  have n: "in_int (operations (config st))" and pr: "showProgressBar (config st) \<longrightarrow> progressInterval (config st) \<noteq> 0"
    using pre by (simp_all add: hot_total_pre_def progress_ok_def)
  have same: "same_setup st s" using inv by (rule run_inv_same)
  note e = hot_same_setup [OF same]
  note i = next_index [OF j n]
  have "\<exists>k. hotKey j s = Inr (k, snd (draw s))"
    using pre j i(4) e by (intro hotKey_total) (simp_all add: hot_total_pre_def)
  then obtain k where k: "hotKey j s = Inr (k, snd (draw s))" by blast
  have si: "stats_inv t (calls st) (snd (draw s))" using inv by (simp add: run_inv_def)
  have "int (length (filter is_get (new_calls (calls st) (snd (draw s))))) < 2147483647"
    using cnt j n by (simp add: in_int_simps)
  from doGet_total_inv [OF si this] obtain s2 where s2: "doGet P t k (snd (draw s)) = Inr s2" by blast
  have "config s2 = config st" using doGet_Inr(1) [OF s2] e by simp
  then have "showProgress s2 (j + 1) (operations (config s2)) = Inr ()"
    using pr i by (intro showProgress_total) simp_all
  then show ?thesis using k s2 i(1) by (simp add: hot_get_body_def)
qed

lemma hot_run_total:
  assumes pre: "hot_total_pre st"
  shows "\<exists>st'. hot_runTestForCacheType P t st = Inr st'"
proof (cases "0 \<le> operations (config st)")
  case False
  then have "for_loop 0 (operations (config st)) body s = Inr s" for body and s :: "'a HotDataAccessTest"
    by (simp add: for_loop_empty)
  then show ?thesis
    by (simp add: hot_runTestForCacheType_def resetStats_def)
next
  case True
  let ?n = "operations (config st)"
  have "\<exists>s1. for_loop 0 ?n (hot_put_body P t) (resetStats t st) = Inr s1 \<and>
      (run_inv P t st s1 \<and> filter is_get (new_calls (calls st) s1) = [])"
  proof (rule for_loop_total [where I = "\<lambda>j s. run_inv P t st s \<and> filter is_get (new_calls (calls st) s) = []"])
    show "run_inv P t st (resetStats t st) \<and> filter is_get (new_calls (calls st) (resetStats t st)) = []"
      by (simp add: run_inv_reset)
    show "0 \<le> ?n" by (rule True)
  next
    fix j s
    assume j: "0 \<le> j" "j < ?n" and I: "run_inv P t st s \<and> filter is_get (new_calls (calls st) s) = []"
    from hot_put_body_total [OF pre run_inv_same j] I obtain s' where s': "hot_put_body P t j s = Inr s'"
      by blast
    have inv: "run_inv P t st s" using I by simp
    from hot_put_step [OF s' inv j(1)] obtain c where "run_inv P t st s'"
      "new_calls (calls st) s' = new_calls (calls st) s @ [c]" "\<not> is_get c" by blast
    then show "\<exists>s'. hot_put_body P t j s = Inr s' \<and>
        (run_inv P t st s' \<and> filter is_get (new_calls (calls st) s') = [])"
      using s' I by (intro exI [of _ s']) simp
  qed
  then obtain s1 where l1: "for_loop 0 ?n (hot_put_body P t) (resetStats t st) = Inr s1"
    and inv1: "run_inv P t st s1" and g1: "filter is_get (new_calls (calls st) s1) = []"
    by blast
  have n1: "operations (config s1) = ?n" using run_inv_same [OF inv1] by (simp add: same_setup_def)
  have "\<exists>s2. for_loop 0 ?n (hot_get_body P t) s1 = Inr s2 \<and>
      (run_inv P t st s2 \<and> length (filter is_get (new_calls (calls st) s2)) \<le> nat ?n)"
  proof (rule for_loop_total [where I = "\<lambda>j s. run_inv P t st s \<and> length (filter is_get (new_calls (calls st) s)) \<le> nat j"])
    show "run_inv P t st s1 \<and> length (filter is_get (new_calls (calls st) s1)) \<le> nat 0"
      using inv1 g1 by simp
    show "0 \<le> ?n" by (rule True)
  next
    fix j s
    assume j: "0 \<le> j" "j < ?n"
      and I: "run_inv P t st s \<and> length (filter is_get (new_calls (calls st) s)) \<le> nat j"
    from hot_get_body_total [OF pre _ j] I obtain s' where s': "hot_get_body P t j s = Inr s'"
      by blast
    have inv: "run_inv P t st s" using I by simp
    from hot_get_step(1,2) [OF s' inv j(1)] obtain c where "run_inv P t st s'"
      "new_calls (calls st) s' = new_calls (calls st) s @ [c]" by blast
    then show "\<exists>s'. hot_get_body P t j s = Inr s' \<and>
        (run_inv P t st s' \<and> length (filter is_get (new_calls (calls st) s')) \<le> nat (j + 1))"
      using s' I j(1) by (intro exI [of _ s']) (auto simp add: nat_add_distrib)
  qed
  then show ?thesis using l1 n1 by (auto simp add: hot_runTestForCacheType_def)
qed

lemma hot_block_count:
  assumes "0 \<le> r" and "r \<le> 100"
  shows "card {op \<in> {100 * int b..<100 * int b + 100}. op mod 100 < r} = nat r"
proof -
  have "{op \<in> {100 * int b..<100 * int b + 100}. op mod 100 < r} = {100 * int b..<100 * int b + r}"
  proof (rule set_eqI)
    fix op :: int
    show "op \<in> {op \<in> {100 * int b..<100 * int b + 100}. op mod 100 < r} \<longleftrightarrow> op \<in> {100 * int b..<100 * int b + r}"
    proof (cases "100 * int b \<le> op \<and> op < 100 * int b + 100")
      case True
      then have "op mod 100 = op - 100 * int b"
        by (intro mod_pos_pos_trivial [of "op - 100 * int b" 100, THEN trans [rotated]]) 
           (simp_all add: mod_diff_right_eq [symmetric])
      then show ?thesis using True assms by auto
    next
      case False
      then show ?thesis using assms by auto
    qed
  qed
  then show ?thesis by simp
qed

lemma hot_get_call_is_get: "hot_get_call st i c \<Longrightarrow> is_get c"
  by (auto simp add: hot_get_call_def)

lemma hot_put_call_not_get: "hot_put_call st i c \<Longrightarrow> \<not> is_get c"
  by (auto simp add: hot_put_call_def)

lemma hot_put_call_key: "hot_pre st \<Longrightarrow> hot_put_call st i c \<Longrightarrow> hot_key_range st i (call_key c)"
  by (auto simp add: hot_put_call_def)

lemma hot_get_call_key: "hot_pre st \<Longrightarrow> hot_get_call st i c \<Longrightarrow> hot_key_range st i (call_key c)"
  by (auto simp add: hot_get_call_def)

lemma main_hotTest_total: "\<exists>st. main_hotTest P g = Inr st"
  by (simp add: main_hotTest_Inr)

lemma main_hotTest_fields:
  assumes "main_hotTest P g = Inr st"
  shows "config st = \<lparr>capacity = 50, operations = 200000, showProgressBar = True, progressInterval = 10000\<rparr>"
    and "hotKeys st = 20"
    and "coldKeys st = 5000"
    and "hotRatio st = 70"
    and "calls st = []"
  using assms
  by (auto simp add: main_hotTest_Inr setHotRatio_def setColdKeys_def setHotKeys_def
      setOperations_def clamp_ratio_def HotDataAccessTest_new_def CacheTest_new_def
      TestConfig_new_def CacheTest.extend_def HotDataAccessTest.fields_def)

lemma main_hotTest_object:
  assumes "main_hotTest P g = Inr st"
  shows "hot_object P st"
proof -
  obtain s1 where c: "setCapacity P 50 (HotDataAccessTest_new P g) = Inr s1"
    by (simp add: setCapacity_Inr)
  have "st = setHotRatio 70 (setColdKeys 5000 (setHotKeys 20 (setOperations 200000 s1)))"
    using assms c by (simp add: main_hotTest_def bindE_def)
  moreover have "hot_object P s1" using hot_new c by (rule hot_setCapacity)
  ultimately show ?thesis
    by (simp add: hot_setHotRatio hot_setColdKeys hot_setHotKeys hot_setOperations)
qed

lemma main_hotTest_total_pre:
  assumes "main_hotTest P g = Inr st"
  shows "hot_total_pre st"
  by (simp add: hot_total_pre_def progress_ok_def main_hotTest_fields [OF assms] in_int_simps)

text \<open>
  Claim C2, as stated, fails for an object whose key counts the setters accept without
  validation.  After \<^verbatim>\<open>setHotKeys(-1)\<close> operation 0 is a hot access but its key
  \<^verbatim>\<open>gen() % hotKeys\<close> is the generator's value 7, outside the empty range
  \<open>[0, -1)\<close>.  After \<^verbatim>\<open>setHotKeys(2147483647)\<close> and \<^verbatim>\<open>setColdKeys(2)\<close> operation 70
  is a cold access and its key wraps to \<open>-2147483648\<close> in the conversion to \<^verbatim>\<open>int\<close>,
  outside \<open>[hotKeys, hotKeys + coldKeys)\<close>.
\<close>

theorem hot_key_outside_range:
  "(\<exists>s. hotKey 0 (setHotKeys (- 1) (HotDataAccessTest_new spec_policy seed0)) = Inr (7, s)) \<and>
   \<not> hot_key_range (setHotKeys (- 1) (HotDataAccessTest_new spec_policy seed0)) 0 7 \<and>
   (\<exists>s. hotKey 70 (setColdKeys 2 (setHotKeys 2147483647 (HotDataAccessTest_new spec_policy seed0)))
      = Inr (- 2147483648, s)) \<and>
   \<not> hot_key_range (setColdKeys 2 (setHotKeys 2147483647 (HotDataAccessTest_new spec_policy seed0)))
      70 (- 2147483648)"
  by (simp add: hotKey_def int_mod_def in_int_simps setHotKeys_def setColdKeys_def new_hot_fields urem_def
      to_unsigned_def UMOD_def uadd_def draw_def gen_draw_def seed0_def to_int_def
      signed_modulo_int_def signed_divide_int_def hot_key_range_def)

text \<open>
  Claim C2, amended: for a \<^verbatim>\<open>HotDataAccessTest\<close> object with \<open>hotKeys > 0\<close>,
  \<open>coldKeys > 0\<close> and \<open>hotKeys + coldKeys \<le> 2^31\<close>, a completed
  \<^verbatim>\<open>runTestForCacheType\<close> issues \<open>operations\<close> puts and then \<open>operations\<close>
  gets; in both phases the key of operation \<open>op\<close> lies in \<open>[0, hotKeys)\<close> if
  \<open>op % 100 < hotRatio\<close> and in \<open>[hotKeys, hotKeys + coldKeys)\<close> otherwise.  The two
  ranges are disjoint, \<open>hotRatio\<close> is in \<open>[0, 100]\<close>, and of the 100 operation indices
  of every aligned block exactly \<open>hotRatio\<close> select the hot range.
\<close>

theorem hot_keys_in_range:
  assumes "hot_object P st" and "0 < hotKeys st" and "0 < coldKeys st"
    and "hotKeys st + coldKeys st \<le> 2 ^ 31"
    and "hot_runTestForCacheType P t st = Inr st'"
  shows "(\<exists>puts gets. calls st' = calls st @ puts @ gets \<and>
            length puts = nat (operations (config st)) \<and>
            length gets = nat (operations (config st)) \<and>
            (\<forall>i<nat (operations (config st)).
               \<not> is_get (puts ! i) \<and> hot_key_range st (int i) (call_key (puts ! i)) \<and>
               is_get (gets ! i) \<and> hot_key_range st (int i) (call_key (gets ! i)))) \<and>
         {0..<hotKeys st} \<inter> {hotKeys st..<hotKeys st + coldKeys st} = {} \<and>
         0 \<le> hotRatio st \<and> hotRatio st \<le> 100 \<and>
         (\<forall>b. card {op \<in> {100 * int b..<100 * int b + 100}. op mod 100 < hotRatio st} = nat (hotRatio st))"
proof -
  have pre: "hot_pre st" using assms(2-4) by (simp add: hot_pre_def)
  note r = hot_object_invariant [OF assms(1)]
  from hot_run_log [OF assms(5)] obtain puts gets where inv: "run_inv P t st st'"
    and n: "new_calls (calls st) st' = puts @ gets"
    and l: "length puts = nat (operations (config st))" "length gets = nat (operations (config st))"
    and p: "\<forall>i<nat (operations (config st)). hot_put_call st (int i) (puts ! i)"
    and g: "\<forall>i<nat (operations (config st)). hot_get_call st (int i) (gets ! i)"
    by blast
  have "calls st' = calls st @ puts @ gets" using run_inv_new_calls [OF inv] n by simp
  moreover have "\<forall>i<nat (operations (config st)).
               \<not> is_get (puts ! i) \<and> hot_key_range st (int i) (call_key (puts ! i)) \<and>
               is_get (gets ! i) \<and> hot_key_range st (int i) (call_key (gets ! i))"
    using p g pre hot_put_call_not_get hot_put_call_key hot_get_call_is_get hot_get_call_key by blast
  moreover have "{0..<hotKeys st} \<inter> {hotKeys st..<hotKeys st + coldKeys st} = {}" by auto
  moreover have "\<forall>b. card {op \<in> {100 * int b..<100 * int b + 100}. op mod 100 < hotRatio st} = nat (hotRatio st)"
    using r hot_block_count by blast
  ultimately show ?thesis using l r by blast
qed

theorem hot_keys_in_range_witness:
  "\<exists>st st'. main_hotTest spec_policy seed0 = Inr st \<and>
     hot_runTestForCacheType spec_policy LRU st = Inr st' \<and>
     (\<exists>puts gets. calls st' = puts @ gets \<and> length puts = 200000 \<and> length gets = 200000 \<and>
        call_key (puts ! 69) \<in> {0..<20} \<and> call_key (gets ! 70) \<in> {20..<5020}) \<and>
     card {op \<in> {100 * int 3..<100 * int 3 + 100}. op mod 100 < (70::int)} = 70"
proof -
  from main_hotTest_total obtain st where m: "main_hotTest spec_policy seed0 = Inr st" by blast
  note f = main_hotTest_fields [OF m]
  from hot_run_total [OF main_hotTest_total_pre [OF m]] obtain st'
    where run: "hot_runTestForCacheType spec_policy LRU st = Inr st'" by blast
  have h: "0 < hotKeys st" "0 < coldKeys st" "hotKeys st + coldKeys st \<le> 2 ^ 31"
    by (simp_all add: f)
  from hot_keys_in_range [OF main_hotTest_object [OF m] h run]
  obtain puts gets where c: "calls st' = puts @ gets" "length puts = 200000" "length gets = 200000"
    and k: "\<forall>i<200000. hot_key_range st (int i) (call_key (puts ! i)) \<and>
        hot_key_range st (int i) (call_key (gets ! i))"
    and b: "\<forall>b. card {op \<in> {100 * int b..<100 * int b + 100}. op mod 100 < (70::int)} = 70"
    by (auto simp add: f)
  have "hot_key_range st (int 69) (call_key (puts ! 69))" "hot_key_range st (int 70) (call_key (gets ! 70))"
    using k [rule_format, of 69] k [rule_format, of 70] by simp_all
  then have "call_key (puts ! 69) \<in> {0..<20}" "call_key (gets ! 70) \<in> {20..<5020}"
    by (simp_all add: hot_key_range_def f)
  then show ?thesis using m run c b by blast
qed

subsection \<open>The capacity bound of the three policies\<close>

lemma length_remove_key_le: "length (remove_key k xs) \<le> length xs"
  by (simp add: remove_key_def)

lemma length_remove_key_less:
  assumes "map_of xs k \<noteq> None"
  shows "length (remove_key k xs) < length xs"
proof -
  from assms obtain v where v: "(k, v) \<in> set xs" by (auto dest: map_of_SomeD)
  have "\<not> fst (k, v) \<noteq> k" by simp
  with v show ?thesis unfolding remove_key_def by (rule length_filter_less)
qed

lemma set_remove_key: "set (remove_key k xs) \<subseteq> set xs"
  by (auto simp add: remove_key_def)

lemma lru_put_c [simp]: "lru_c (lru_put k v s) = lru_c s"
  by (simp add: lru_put_def)

lemma lru_get_c [simp]: "lru_c (snd (lru_get k s)) = lru_c s"
  by (simp add: lru_get_def split: option.splits)

lemma lru_inv_put: "lru_inv s \<Longrightarrow> lru_inv (lru_put k v s)"
  using length_remove_key_less [of "lru_L s" k]
  by (auto simp add: lru_inv_def lru_put_def)

lemma lru_inv_get: "lru_inv s \<Longrightarrow> lru_inv (snd (lru_get k s))"
  using length_remove_key_less [of "lru_L s" k]
  by (auto simp add: lru_inv_def lru_get_def split: option.splits)

lemma distinct_remove_key: "distinct (map fst xs) \<Longrightarrow> distinct (map fst (remove_key k xs))"
  by (simp add: remove_key_def distinct_map_filter)

lemma key_notin_remove_key: "k \<notin> fst ` set (remove_key k xs)"
  by (auto simp add: remove_key_def)

lemma bucket_nonempty_iff: "bucket f ns \<noteq> [] \<longleftrightarrow> (\<exists>e\<in>set ns. snd (snd e) = f)"
  by (auto simp add: bucket_def filter_empty_conv)

lemma lfu_promote_c [simp]: "lfu_c (lfu_promote k s) = lfu_c s"
  by (simp add: lfu_promote_def Let_def split: option.splits)

lemma lfu_inv_promote:
  assumes "lfu_inv s"
  shows "lfu_inv (lfu_promote k s)"
proof (cases "map_of (lfu_nodes s) k")
  case None
  then show ?thesis using assms by (simp add: lfu_promote_def)
next
  case (Some vf)
  obtain v f where vf: "vf = (v, f)" by (cases vf)
  let ?ns = "lfu_nodes s"
  let ?rest = "remove_key k ?ns"
  let ?mf = "if bucket f ?rest = [] \<and> f = min_freq s then f + 1 else min_freq s"
  have d: "distinct (map fst ?ns)" and len: "length ?ns \<le> lfu_c s"
    using assms by (simp_all add: lfu_inv_def)
  have mem: "(k, v, f) \<in> set ?ns" using Some vf by (auto dest: map_of_SomeD)
  then have ne: "?ns \<noteq> []" by auto
  then have "bucket (min_freq s) ?ns \<noteq> []" using assms by (simp add: lfu_inv_def)
  then obtain e where e: "e \<in> set ?ns" "snd (snd e) = min_freq s"
    by (auto simp add: bucket_nonempty_iff)
  have p: "lfu_promote k s = s\<lparr>lfu_nodes := ?rest @ [(k, v, f + 1)], min_freq := ?mf\<rparr>"
    using Some vf by (simp add: lfu_promote_def Let_def)
  have l: "length (?rest @ [(k, v, f + 1)]) \<le> lfu_c s"
    using length_remove_key_less [of ?ns k] Some len by simp
  have dd: "distinct (map fst (?rest @ [(k, v, f + 1)]))"
    using distinct_remove_key [OF d, of k] key_notin_remove_key [of k ?ns] by simp
  have b: "bucket ?mf (?rest @ [(k, v, f + 1)]) \<noteq> []"
  proof (cases "bucket f ?rest = [] \<and> f = min_freq s")
    case True
    then show ?thesis by (simp add: bucket_nonempty_iff)
  next
    case False
    have "\<exists>e'\<in>set ?rest. snd (snd e') = min_freq s"
    proof (cases "fst e = k")
      case True
      have "map_of ?ns (fst e) = Some (snd e)" using d e(1) by (simp add: map_of_eq_Some_iff)
      then have "snd e = (v, f)" using Some vf True by simp
      then have "f = min_freq s" using e(2) by simp
      then have "bucket (min_freq s) ?rest \<noteq> []" using False by simp
      then show ?thesis by (simp add: bucket_nonempty_iff)
    next
      case False
      then have "e \<in> set ?rest" using e(1) by (simp add: remove_key_def)
      then show ?thesis using e(2) by blast
    qed
    then show ?thesis using False by (auto simp add: bucket_nonempty_iff)
  qed
  show ?thesis unfolding p lfu_inv_def using l dd b by simp
qed

lemma bucket_nonempty_counts: "bucket f ns \<noteq> [] \<longleftrightarrow> f \<in> set (node_counts ns)"
  by (auto simp add: bucket_nonempty_iff node_counts_def)

lemma overwrite_keys [simp]: "map fst (overwrite_value k v ns) = map fst ns"
  unfolding overwrite_value_def by (induction ns) auto

lemma overwrite_counts [simp]: "node_counts (overwrite_value k v ns) = node_counts ns"
  unfolding overwrite_value_def node_counts_def by (induction ns) auto

lemma overwrite_length [simp]: "length (overwrite_value k v ns) = length ns"
  by (simp add: overwrite_value_def)

lemma halve_keys [simp]: "map fst (halve_counts ns) = map fst ns"
  unfolding halve_counts_def by (induction ns) auto

lemma halve_length [simp]: "length (halve_counts ns) = length ns"
  by (simp add: halve_counts_def)

lemma node_counts_length [simp]: "length (node_counts ns) = length ns"
  by (simp add: node_counts_def)

lemma lfu_decay_cases:
  "lfu_decay s = s \<or>
   (lfu_nodes s \<noteq> [] \<and>
    lfu_decay s = s\<lparr>lfu_nodes := halve_counts (lfu_nodes s),
      min_freq := Min (set (node_counts (halve_counts (lfu_nodes s)))),
      total_freq := sum_list (node_counts (halve_counts (lfu_nodes s)))\<rparr>)"
  by (simp add: lfu_decay_def Let_def)

lemma lfu_inv_decay:
  assumes "lfu_inv s"
  shows "lfu_inv (lfu_decay s)"
proof (cases "lfu_decay s = s")
  case True
  then show ?thesis using assms by simp
next
  case False
  let ?ns = "halve_counts (lfu_nodes s)"
  from False lfu_decay_cases [of s] have ne: "lfu_nodes s \<noteq> []"
    and eq: "lfu_decay s = s\<lparr>lfu_nodes := ?ns, min_freq := Min (set (node_counts ?ns)),
      total_freq := sum_list (node_counts ?ns)\<rparr>"
    by blast+
  have "length (node_counts ?ns) \<noteq> 0" using ne by simp
  then have "node_counts ?ns \<noteq> []" by (simp only: length_0_conv not_False_eq_True)
  then have "Min (set (node_counts ?ns)) \<in> set (node_counts ?ns)" by (intro Min_in) simp_all
  then have b: "bucket (Min (set (node_counts ?ns))) ?ns \<noteq> []"
    by (simp only: bucket_nonempty_counts)
  have l: "length ?ns \<le> lfu_c s" and d: "distinct (map fst ?ns)"
    using assms by (simp_all add: lfu_inv_def)
  show ?thesis unfolding eq lfu_inv_def using l d b by simp
qed

lemma lfu_decay_c [simp]: "lfu_c (lfu_decay s) = lfu_c s"
  by (simp add: lfu_decay_def Let_def)

lemma lfu_decay_length [simp]: "length (lfu_nodes (lfu_decay s)) = length (lfu_nodes s)"
  using lfu_decay_cases [of s] by auto

lemma lfu_evict_c [simp]: "lfu_c (lfu_evict s) = lfu_c s"
  by (simp add: lfu_evict_def split: list.splits)

lemma lfu_evict_keys: "set (lfu_nodes (lfu_evict s)) \<subseteq> set (lfu_nodes s)"
  using set_remove_key by (fastforce simp add: lfu_evict_def split: list.splits)

lemma lfu_evict_distinct:
  "distinct (map fst (lfu_nodes s)) \<Longrightarrow> distinct (map fst (lfu_nodes (lfu_evict s)))"
  by (simp add: lfu_evict_def distinct_remove_key split: list.splits)

lemma lfu_evict_length:
  assumes "lfu_inv s" and "lfu_nodes s \<noteq> []"
  shows "length (lfu_nodes (lfu_evict s)) < length (lfu_nodes s)"
proof -
  have "bucket (min_freq s) (lfu_nodes s) \<noteq> []" using assms by (simp add: lfu_inv_def)
  then obtain e es where b: "bucket (min_freq s) (lfu_nodes s) = e # es" by (cases "bucket (min_freq s) (lfu_nodes s)") auto
  then have "e \<in> set (bucket (min_freq s) (lfu_nodes s))" by simp
  then have "e \<in> set (lfu_nodes s)" by (simp add: bucket_def)
  then have "(fst e, snd e) \<in> set (lfu_nodes s)" by simp
  then have "fst e \<in> fst ` set (lfu_nodes s)" by (rule image_eqI [rotated]) simp
  then have "map_of (lfu_nodes s) (fst e) \<noteq> None"
    by (simp add: map_of_eq_None_iff)
  then have "length (remove_key (fst e) (lfu_nodes s)) < length (lfu_nodes s)"
    by (rule length_remove_key_less)
  then show ?thesis using b by (simp add: lfu_evict_def)
qed

lemma lfu_put_c [simp]: "lfu_c (lfu_put k v s) = lfu_c s"
  by (simp add: lfu_put_def Let_def split: option.splits)

lemma lfu_inv_put:
  assumes "lfu_inv s"
  shows "lfu_inv (lfu_put k v s)"
proof (cases "lfu_c s = 0")
  case True
  then show ?thesis using assms by (simp add: lfu_put_def)
next
  case c: False
  show ?thesis
  proof (cases "map_of (lfu_nodes s) k")
    case (Some vf)
    let ?s1 = "s\<lparr>lfu_nodes := overwrite_value k v (lfu_nodes s)\<rparr>"
    have "overwrite_value k v (lfu_nodes s) = [] \<longleftrightarrow> lfu_nodes s = []"
      using overwrite_length [of k v "lfu_nodes s"] by (simp only: length_0_conv [symmetric])
    then have "lfu_inv ?s1" using assms unfolding lfu_inv_def bucket_nonempty_counts
      by simp
    then have "lfu_inv (lfu_promote k ?s1)" by (rule lfu_inv_promote)
    then show ?thesis using c Some by (simp add: lfu_put_def split: prod.splits)
  next
    case None
    let ?s1 = "if length (lfu_nodes s) = lfu_c s then lfu_evict s else s"
    have l: "length (lfu_nodes ?s1) < lfu_c s"
    proof (cases "length (lfu_nodes s) = lfu_c s")
      case True
      then have "lfu_nodes s \<noteq> []" using c by auto
      then show ?thesis using lfu_evict_length [OF assms] True by simp
    next
      case False
      then show ?thesis using assms by (simp add: lfu_inv_def)
    qed
    have sub: "set (lfu_nodes ?s1) \<subseteq> set (lfu_nodes s)" using lfu_evict_keys [of s] by simp
    have "k \<notin> fst ` set (lfu_nodes s)" using None by (simp add: map_of_eq_None_iff)
    then have nk: "k \<notin> fst ` set (lfu_nodes ?s1)" using sub by blast
    have d: "distinct (map fst (lfu_nodes ?s1))" using assms lfu_evict_distinct [of s] by (simp add: lfu_inv_def)
    have p: "lfu_put k v s = ?s1\<lparr>lfu_nodes := lfu_nodes ?s1 @ [(k, v, 1)], min_freq := 1, total_freq := total_freq ?s1 + 1\<rparr>"
      using c None by (simp add: lfu_put_def Let_def)
    have c1: "lfu_c ?s1 = lfu_c s" by simp
    show ?thesis unfolding p lfu_inv_def using l d nk c1 by (simp add: bucket_nonempty_iff)
  qed
qed

lemma lfu_get_c [simp]: "lfu_c (snd (lfu_get k s)) = lfu_c s"
  by (simp add: lfu_get_def split: option.splits prod.splits)

lemma lfu_inv_get:
  assumes "lfu_inv s"
  shows "lfu_inv (snd (lfu_get k s))"
proof (cases "map_of (lfu_nodes s) k")
  case None
  then show ?thesis using assms by (simp add: lfu_get_def)
next
  case (Some vf)
  have "lfu_inv (lfu_promote k s)" using assms by (rule lfu_inv_promote)
  then have "lfu_inv ((lfu_promote k s)\<lparr>total_freq := total_freq (lfu_promote k s) + 1\<rparr>)"
    by (simp add: lfu_inv_def)
  then have "lfu_inv (lfu_decay ((lfu_promote k s)\<lparr>total_freq := total_freq (lfu_promote k s) + 1\<rparr>))"
    by (rule lfu_inv_decay)
  then show ?thesis using Some by (simp add: lfu_get_def split: prod.splits)
qed

lemma adapt_B1_fields [simp]:
  "arc_c (adapt_B1 s) = arc_c s" "T1 (adapt_B1 s) = T1 s" "T2 (adapt_B1 s) = T2 s"
  "B1 (adapt_B1 s) = B1 s" "B2 (adapt_B1 s) = B2 s" "arc_p (adapt_B1 s) \<le> arc_c s"
  by (simp_all add: adapt_B1_def)

lemma adapt_B2_fields [simp]:
  "arc_c (adapt_B2 s) = arc_c s" "T1 (adapt_B2 s) = T1 s" "T2 (adapt_B2 s) = T2 s"
  "B1 (adapt_B2 s) = B1 s" "B2 (adapt_B2 s) = B2 s"
  by (simp_all add: adapt_B2_def Let_def)

lemma adapt_B2_p: "arc_p s \<le> arc_c s \<Longrightarrow> arc_p (adapt_B2 s) \<le> arc_c s"
  by (auto simp add: adapt_B2_def Let_def)

lemma arc_inv_adapt: "arc_inv s \<Longrightarrow> arc_inv (adapt_B1 s)" "arc_inv s \<Longrightarrow> arc_inv (adapt_B2 s)"
  by (simp_all add: arc_inv_def adapt_B2_p)

text \<open>What REPLACE does to the sizes: it keeps the capacity, p, and the size of L1; it never grows T1 + T2.\<close>

lemma REPLACE_fields [simp]: "arc_c (REPLACE k s) = arc_c s" "arc_p (REPLACE k s) = arc_p s"
  by (simp_all add: REPLACE_def)

lemma REPLACE_cases:
  "(0 < length (T1 s) \<and> (arc_p s < length (T1 s) \<or> (k \<in> set (B2 s) \<and> length (T1 s) = arc_p s)) \<and>
      Suc (length (T1 (REPLACE k s))) = length (T1 s) \<and> T2 (REPLACE k s) = T2 s \<and>
      length (B1 (REPLACE k s)) = Suc (length (B1 s)) \<and> B2 (REPLACE k s) = B2 s \<and>
      set (B1 s) \<subseteq> set (B1 (REPLACE k s)) \<and> set (T1 (REPLACE k s)) \<subseteq> set (T1 s)) \<or>
   (\<not> (0 < length (T1 s) \<and> (arc_p s < length (T1 s) \<or> (k \<in> set (B2 s) \<and> length (T1 s) = arc_p s))) \<and>
      length (T2 s) = 0 \<and> REPLACE k s = s) \<or>
   (\<not> (0 < length (T1 s) \<and> (arc_p s < length (T1 s) \<or> (k \<in> set (B2 s) \<and> length (T1 s) = arc_p s))) \<and>
      0 < length (T2 s) \<and> T1 (REPLACE k s) = T1 s \<and> Suc (length (T2 (REPLACE k s))) = length (T2 s) \<and>
      B1 (REPLACE k s) = B1 s \<and> length (B2 (REPLACE k s)) = Suc (length (B2 s)) \<and>
      set (B2 s) \<subseteq> set (B2 (REPLACE k s)) \<and> set (T2 (REPLACE k s)) \<subseteq> set (T2 s))"
  by (auto simp add: REPLACE_def dest: in_set_butlastD)

lemma REPLACE_L1: "length (T1 (REPLACE k s)) + length (B1 (REPLACE k s)) = length (T1 s) + length (B1 s)"
  using REPLACE_cases [of s k] by auto

lemma REPLACE_room:
  assumes "length (T1 s) + length (T2 s) \<le> c" and "length (T1 s) < c"
  shows "length (T1 (REPLACE k s)) + length (T2 (REPLACE k s)) < c"
  using REPLACE_cases [of s k] assms by auto

lemma REPLACE_room_B2:
  assumes "length (T1 s) + length (T2 s) \<le> c" and "k \<in> set (B2 s)" and "arc_p s \<le> c" and "0 < c"
  shows "length (T1 (REPLACE k s)) + length (T2 (REPLACE k s)) < c"
  using REPLACE_cases [of s k] assms by auto

lemma arc_make_room_fields [simp]:
  "arc_c (arc_make_room k s) = arc_c s" "arc_p (arc_make_room k s) = arc_p s"
  by (simp_all add: arc_make_room_def Let_def)

lemma arc_make_room_sizes:
  assumes inv: "arc_inv s" and c: "0 < arc_c s"
  shows "length (T1 (arc_make_room k s)) + length (T2 (arc_make_room k s)) < arc_c s \<and>
         length (T1 (arc_make_room k s)) + length (B1 (arc_make_room k s)) < arc_c s"
proof -
  let ?c = "arc_c s"
  let ?n = "length (T1 s) + length (T2 s) + length (B1 s) + length (B2 s)"
  have r: "length (T1 s) + length (T2 s) \<le> ?c" and l: "length (T1 s) + length (B1 s) \<le> ?c"
    using inv by (simp_all add: arc_inv_def)
  consider (A1) "length (T1 s) + length (B1 s) = ?c" "length (T1 s) < ?c"
    | (A2) "length (T1 s) + length (B1 s) = ?c" "\<not> length (T1 s) < ?c"
    | (B) "length (T1 s) + length (B1 s) < ?c" "?n \<ge> ?c"
    | (C) "length (T1 s) + length (B1 s) < ?c" "\<not> ?n \<ge> ?c"
    using l by linarith
  then show ?thesis
  proof cases
    case A1
    let ?s = "s\<lparr>B1 := butlast (B1 s)\<rparr>"
    have e: "arc_make_room k s = REPLACE k ?s" using A1 by (simp add: arc_make_room_def Let_def)
    have "length (T1 (REPLACE k ?s)) + length (T2 (REPLACE k ?s)) < ?c"
      using r A1(2) by (intro REPLACE_room) simp_all
    moreover have "length (T1 (REPLACE k ?s)) + length (B1 (REPLACE k ?s)) < ?c"
      using A1 unfolding REPLACE_L1 by simp
    ultimately show ?thesis unfolding e by simp
  next
    case A2
    have e: "arc_make_room k s = s\<lparr>T1 := butlast (T1 s)\<rparr>" using A2 by (simp add: arc_make_room_def Let_def)
    have t: "length (T1 s) = ?c" "length (T2 s) = 0" "length (B1 s) = 0"
      using A2 r l by linarith+
    have "length (butlast (T1 s)) + length (T2 s) < ?c" "length (butlast (T1 s)) + length (B1 s) < ?c"
      unfolding length_butlast t using c by simp_all
    then show ?thesis unfolding e by simp
  next
    case B
    let ?s = "if ?n = 2 * ?c then s\<lparr>B2 := butlast (B2 s)\<rparr> else s"
    have e: "arc_make_room k s = REPLACE k ?s" using B by (simp add: arc_make_room_def Let_def)
    have t: "T1 ?s = T1 s" "T2 ?s = T2 s" "B1 ?s = B1 s" by simp_all
    have t1: "length (T1 ?s) + length (T2 ?s) \<le> ?c" using r by (simp only: t)
    have "length (T1 s) < ?c" using B(1) by linarith
    then have t2: "length (T1 ?s) < ?c" by (simp only: t)
    have "length (T1 (REPLACE k ?s)) + length (T2 (REPLACE k ?s)) < ?c"
      using t1 t2 by (rule REPLACE_room)
    moreover have "length (T1 (REPLACE k ?s)) + length (B1 (REPLACE k ?s)) < ?c"
      using B(1) unfolding REPLACE_L1 by (simp only: t)
    ultimately show ?thesis unfolding e by simp
  next
    case C
    have e: "arc_make_room k s = s" using C by (simp add: arc_make_room_def Let_def)
    show ?thesis unfolding e using C by simp
  qed
qed

lemma arc_put_c [simp]: "arc_c (arc_put k v s) = arc_c s"
  by (simp add: arc_put_def Let_def)

lemma arc_inv_put:
  assumes inv: "arc_inv s"
  shows "arc_inv (arc_put k v s)"
proof -
  let ?c = "arc_c s"
  have r: "length (T1 s) + length (T2 s) \<le> ?c" and l: "length (T1 s) + length (B1 s) \<le> ?c"
    and p: "arc_p s \<le> ?c"
    using inv by (simp_all add: arc_inv_def)
  consider (zero) "?c = 0"
    | (I) "?c \<noteq> 0" "map_of (T1 s) k \<noteq> None \<or> map_of (T2 s) k \<noteq> None"
    | (II) "?c \<noteq> 0" "\<not> (map_of (T1 s) k \<noteq> None \<or> map_of (T2 s) k \<noteq> None)" "k \<in> set (B1 s)"
    | (III) "?c \<noteq> 0" "\<not> (map_of (T1 s) k \<noteq> None \<or> map_of (T2 s) k \<noteq> None)" "k \<notin> set (B1 s)" "k \<in> set (B2 s)"
    | (IV) "?c \<noteq> 0" "\<not> (map_of (T1 s) k \<noteq> None \<or> map_of (T2 s) k \<noteq> None)" "k \<notin> set (B1 s)" "k \<notin> set (B2 s)"
    by blast
  then show ?thesis
  proof cases
    case zero
    then show ?thesis using inv by (simp add: arc_put_def)
  next
    case I
    have e: "arc_put k v s = s\<lparr>T1 := remove_key k (T1 s), T2 := (k, v) # remove_key k (T2 s)\<rparr>"
      using I by (simp add: arc_put_def)
    have "length (remove_key k (T1 s)) + length (remove_key k (T2 s)) < length (T1 s) + length (T2 s)"
      using I(2) length_remove_key_less [of "T1 s" k] length_remove_key_less [of "T2 s" k]
        length_remove_key_le [of k "T1 s"] length_remove_key_le [of k "T2 s"] by linarith
    then show ?thesis unfolding e arc_inv_def
      using r l p length_remove_key_le [of k "T1 s"] by simp
  next
    case II
    let ?s0 = "adapt_B1 s"
    let ?s1 = "REPLACE k ?s0"
    have e: "arc_put k v s = ?s1\<lparr>B1 := removeAll k (B1 ?s1), T2 := (k, v) # T2 ?s1\<rparr>"
      using II by (simp add: arc_put_def Let_def)
    have "0 < length (B1 s)" using II(3) by (cases "B1 s") auto
    then have "length (T1 s) < ?c" using l by linarith
    then have t1: "length (T1 ?s0) < ?c" by simp
    have "length (T1 ?s1) + length (T2 ?s1) < ?c"
      using r t1 by (intro REPLACE_room) simp_all
    moreover have "k \<in> set (B1 ?s1)" using II(3) REPLACE_cases [of ?s0 k] by auto
    then have "length (removeAll k (B1 ?s1)) < length (B1 ?s1)" by (rule length_removeAll_less)
    then have "length (T1 ?s1) + length (removeAll k (B1 ?s1)) \<le> ?c"
      using REPLACE_L1 [of k ?s0] l by simp
    ultimately show ?thesis unfolding e arc_inv_def by simp
  next
    case III
    let ?s0 = "adapt_B2 s"
    let ?s1 = "REPLACE k ?s0"
    have e: "arc_put k v s = ?s1\<lparr>B2 := removeAll k (B2 ?s1), T2 := (k, v) # T2 ?s1\<rparr>"
      using III by (simp add: arc_put_def Let_def)
    have "length (T1 ?s1) + length (T2 ?s1) < ?c"
      using r III(1,4) adapt_B2_p [OF p] by (intro REPLACE_room_B2) simp_all
    moreover have "length (T1 ?s1) + length (B1 ?s1) \<le> ?c"
      using REPLACE_L1 [of k ?s0] l by simp
    ultimately show ?thesis unfolding e arc_inv_def using adapt_B2_p [OF p] by simp
  next
    case IV
    let ?s1 = "arc_make_room k s"
    have e: "arc_put k v s = ?s1\<lparr>T1 := (k, v) # T1 ?s1\<rparr>"
      using IV by (simp add: arc_put_def Let_def)
    have "0 < ?c" using IV(1) by simp
    from arc_make_room_sizes [OF inv this, of k] show ?thesis
      unfolding e arc_inv_def using p by simp
  qed
qed

lemma arc_get_c [simp]: "arc_c (snd (arc_get k s)) = arc_c s"
  by (simp add: arc_get_def split: option.splits)

lemma arc_inv_get:
  assumes inv: "arc_inv s"
  shows "arc_inv (snd (arc_get k s))"
proof (cases "map_of (T1 s) k")
  case (Some v)
  have "length (remove_key k (T1 s)) < length (T1 s)"
    using Some by (intro length_remove_key_less) simp
  then show ?thesis using inv Some length_remove_key_le [of k "T2 s"]
    by (simp add: arc_get_def arc_inv_def)
next
  case None
  show ?thesis
  proof (cases "map_of (T2 s) k")
    case (Some v)
    have "length (remove_key k (T2 s)) < length (T2 s)"
      using Some by (intro length_remove_key_less) simp
    then show ?thesis using inv None Some by (simp add: arc_get_def arc_inv_def)
  next
    case N2: None
    show ?thesis using inv None N2 arc_inv_adapt [OF inv] by (simp add: arc_get_def)
  qed
qed

lemma cache_inv_resident: "cache_inv s \<Longrightarrow> resident s \<le> cache_capacity s"
  by (cases s) (simp_all add: lru_inv_def lfu_inv_def arc_inv_def)

lemma cache_inv_new:
  "cache_inv (LruCache (new_lru c))" "cache_inv (LfuCache (new_lfu c m))" "cache_inv (ArcCache (new_arc c))"
  by (simp_all add: lru_inv_def lfu_inv_def arc_inv_def new_lru_def new_lfu_def new_arc_def)

lemma cache_inv_apply_op: "cache_inv s \<Longrightarrow> cache_inv (apply_op s x)"
  by (cases s; cases x) (simp_all add: lru_inv_put lru_inv_get lfu_inv_put lfu_inv_get arc_inv_put arc_inv_get)

lemma cache_capacity_apply_op [simp]: "cache_capacity (apply_op s x) = cache_capacity s"
  by (cases s; cases x) simp_all

lemma cache_inv_apply_ops: "cache_inv s \<Longrightarrow> cache_inv (apply_ops s xs)"
  unfolding apply_ops_def by (induction xs arbitrary: s) (simp_all add: cache_inv_apply_op)

lemma cache_capacity_apply_ops [simp]: "cache_capacity (apply_ops s xs) = cache_capacity s"
  unfolding apply_ops_def by (induction xs arbitrary: s) simp_all

text \<open>
  Claim C4: for each of the three policies, constructed with capacity \<open>c\<close>, and every
  sequence of put and get operations, the number of resident entries is at most \<open>c\<close>
  after every prefix of the sequence.
\<close>

theorem resident_never_exceeds_capacity:
  "resident (apply_ops (LruCache (new_lru c)) (take n ops)) \<le> c \<and>
   resident (apply_ops (LfuCache (new_lfu c m)) (take n ops)) \<le> c \<and>
   resident (apply_ops (ArcCache (new_arc c)) (take n ops)) \<le> c"
proof -
  have "resident (apply_ops s xs) \<le> cache_capacity s" if "cache_inv s" for s :: "('a, 'b) cache" and xs
    using cache_inv_resident [OF cache_inv_apply_ops [OF that, of xs]] by simp
  from this [OF cache_inv_new(1)] this [OF cache_inv_new(2)] this [OF cache_inv_new(3)]
  show ?thesis by (simp add: new_lru_def new_lfu_def new_arc_def)
qed

lemma node_pairs_simps [simp]:
  "node_pairs [] = {}"
  "node_pairs (xs @ ys) = node_pairs xs \<union> node_pairs ys"
  "node_pairs [(k, v, f)] = {(k, v)}"
  by (auto simp add: node_pairs_def)

lemma node_pairs_remove_key: "node_pairs (remove_key k ns) \<subseteq> node_pairs ns"
  by (auto simp add: node_pairs_def remove_key_def)

lemma node_pairs_halve [simp]: "node_pairs (halve_counts ns) = node_pairs ns"
  by (force simp add: node_pairs_def halve_counts_def)

lemma node_pairs_overwrite: "node_pairs (overwrite_value k v ns) \<subseteq> insert (k, v) (node_pairs ns)"
  by (auto simp add: node_pairs_def overwrite_value_def)

lemma node_pairs_map_of: "map_of ns k = Some (v, f) \<Longrightarrow> (k, v) \<in> node_pairs ns"
  by (force simp add: node_pairs_def dest: map_of_SomeD)

lemma lfu_promote_pairs: "node_pairs (lfu_nodes (lfu_promote k s)) \<subseteq> node_pairs (lfu_nodes s)"
  using node_pairs_remove_key [of k "lfu_nodes s"] node_pairs_map_of [of "lfu_nodes s" k]
  by (auto simp add: lfu_promote_def Let_def split: option.splits)

lemma lfu_decay_pairs: "node_pairs (lfu_nodes (lfu_decay s)) = node_pairs (lfu_nodes s)"
  using lfu_decay_cases [of s] by auto

lemma lfu_evict_pairs: "node_pairs (lfu_nodes (lfu_evict s)) \<subseteq> node_pairs (lfu_nodes s)"
  using lfu_evict_keys [of s] by (auto simp add: node_pairs_def)

lemma lfu_put_pairs: "node_pairs (lfu_nodes (lfu_put k v s)) \<subseteq> insert (k, v) (node_pairs (lfu_nodes s))"
proof (cases "lfu_c s = 0")
  case True
  then show ?thesis by (auto simp add: lfu_put_def)
next
  case c: False
  show ?thesis
  proof (cases "map_of (lfu_nodes s) k")
    case None
    then show ?thesis using c lfu_evict_pairs [of s] by (auto simp add: lfu_put_def Let_def)
  next
    case (Some vf)
    have "node_pairs (lfu_nodes (lfu_promote k (s\<lparr>lfu_nodes := overwrite_value k v (lfu_nodes s)\<rparr>)))
        \<subseteq> insert (k, v) (node_pairs (lfu_nodes s))"
      using lfu_promote_pairs [of k "s\<lparr>lfu_nodes := overwrite_value k v (lfu_nodes s)\<rparr>"]
        node_pairs_overwrite [of k v "lfu_nodes s"] by auto
    then show ?thesis using c Some by (simp add: lfu_put_def split: prod.splits)
  qed
qed

lemma lfu_get_pairs: "node_pairs (lfu_nodes (snd (lfu_get k s))) \<subseteq> node_pairs (lfu_nodes s)"
proof (cases "map_of (lfu_nodes s) k")
  case None
  then show ?thesis by (simp add: lfu_get_def)
next
  case (Some vf)
  have "lfu_nodes ((lfu_promote k s)\<lparr>total_freq := total_freq (lfu_promote k s) + 1\<rparr>) = lfu_nodes (lfu_promote k s)"
    by simp
  then show ?thesis using Some lfu_promote_pairs [of k s]
    by (simp add: lfu_get_def lfu_decay_pairs split: prod.splits)
qed

lemma lfu_get_hit: "fst (lfu_get k s) = Some v \<Longrightarrow> (k, v) \<in> node_pairs (lfu_nodes s)"
  by (auto simp add: lfu_get_def node_pairs_map_of split: option.splits prod.splits)

lemma lru_put_pairs: "set (lru_L (lru_put k v s)) \<subseteq> insert (k, v) (set (lru_L s))"
  using set_remove_key [of k "lru_L s"] by (auto simp add: lru_put_def dest: in_set_butlastD)

lemma lru_get_pairs: "set (lru_L (snd (lru_get k s))) \<subseteq> set (lru_L s)"
  using set_remove_key [of k "lru_L s"] by (auto simp add: lru_get_def split: option.splits dest: map_of_SomeD)

lemma lru_get_hit: "fst (lru_get k s) = Some v \<Longrightarrow> (k, v) \<in> set (lru_L s)"
  by (auto simp add: lru_get_def split: option.splits dest: map_of_SomeD)

lemma REPLACE_pairs: "set (T1 (REPLACE k s)) \<union> set (T2 (REPLACE k s)) \<subseteq> set (T1 s) \<union> set (T2 s)"
  by (auto simp add: REPLACE_def dest: in_set_butlastD)

lemma arc_make_room_pairs:
  "set (T1 (arc_make_room k s)) \<union> set (T2 (arc_make_room k s)) \<subseteq> set (T1 s) \<union> set (T2 s)"
proof -
  have "set (T1 (REPLACE k s')) \<union> set (T2 (REPLACE k s')) \<subseteq> set (T1 s) \<union> set (T2 s)"
    if "T1 s' = T1 s" "T2 s' = T2 s" for s' :: "('a, 'b) arc"
    using REPLACE_pairs [of k s'] that by simp
  then show ?thesis
    by (auto simp add: arc_make_room_def Let_def dest: in_set_butlastD)
qed

lemma arc_put_pairs:
  "set (T1 (arc_put k v s)) \<union> set (T2 (arc_put k v s)) \<subseteq> insert (k, v) (set (T1 s) \<union> set (T2 s))"
proof -
  have a: "set (T1 (REPLACE k (adapt_B1 s))) \<union> set (T2 (REPLACE k (adapt_B1 s))) \<subseteq> set (T1 s) \<union> set (T2 s)"
    using REPLACE_pairs [of k "adapt_B1 s"] by simp
  have b: "set (T1 (REPLACE k (adapt_B2 s))) \<union> set (T2 (REPLACE k (adapt_B2 s))) \<subseteq> set (T1 s) \<union> set (T2 s)"
    using REPLACE_pairs [of k "adapt_B2 s"] by simp
  show ?thesis
    using a b arc_make_room_pairs [of k s] set_remove_key [of k "T1 s"] set_remove_key [of k "T2 s"]
    by (auto simp add: arc_put_def Let_def)
qed

lemma arc_get_pairs:
  "set (T1 (snd (arc_get k s))) \<union> set (T2 (snd (arc_get k s))) \<subseteq> set (T1 s) \<union> set (T2 s)"
  using set_remove_key [of k "T1 s"] set_remove_key [of k "T2 s"]
  by (auto simp add: arc_get_def split: option.splits dest: map_of_SomeD)

lemma arc_get_hit: "fst (arc_get k s) = Some v \<Longrightarrow> (k, v) \<in> set (T1 s) \<union> set (T2 s)"
  by (auto simp add: arc_get_def split: option.splits if_splits dest: map_of_SomeD)

lemma arc_pairs_put: "arc_pairs (arc_put k v s) \<subseteq> insert (k, v) (arc_pairs s)"
  unfolding arc_pairs_def by (rule arc_put_pairs)

lemma arc_pairs_get: "arc_pairs (snd (arc_get k s)) \<subseteq> arc_pairs s"
  unfolding arc_pairs_def by (rule arc_get_pairs)

lemma arc_pairs_hit: "fst (arc_get k s) = Some v \<Longrightarrow> (k, v) \<in> arc_pairs s"
  unfolding arc_pairs_def by (rule arc_get_hit)

subsection \<open>No phantoms in the three policies\<close>

lemma contents_put: "contents (policy_put k v s) \<subseteq> insert (k, v) (contents s)"
  by (cases s) (simp_all add: lru_put_pairs lfu_put_pairs arc_pairs_put)

lemma contents_get: "contents (snd (policy_get k s)) \<subseteq> contents s"
  by (cases s) (simp_all add: lru_get_pairs lfu_get_pairs arc_pairs_get)

lemma contents_hit: "fst (policy_get k s) = Some v \<Longrightarrow> (k, v) \<in> contents s"
  by (cases s) (simp_all add: lru_get_hit lfu_get_hit arc_pairs_hit)

lemma contents_new: "contents (new_cache t c) = {}"
  by (cases t) (simp_all add: new_cache_def new_lru_def new_lfu_def new_arc_def arc_pairs_def)

lemma reach_spec_contents:
  assumes "reach spec_policy s h"
  shows "contents s \<subseteq> set h"
  using assms
proof (induction rule: reach.induct)
  case (reach_new t c)
  show ?case by (simp add: spec_policy_def contents_new)
next
  case (reach_put s h k v)
  then show ?case using contents_put [of k v s] by (auto simp add: spec_policy_def)
next
  case (reach_get s h k)
  then show ?case using contents_get [of k s] by (auto simp add: spec_policy_def)
qed

lemma no_phantoms_spec_policy: "no_phantoms spec_policy"
  unfolding no_phantoms_def
proof (intro allI impI)
  fix s :: "(int, string) cache" and h k v
  assume r: "reach spec_policy s h" and g: "fst (cache_get spec_policy k s) = Some v"
  have "(k, v) \<in> contents s" using g by (intro contents_hit) (simp add: spec_policy_def)
  then show "(k, v) \<in> set h" using reach_spec_contents [OF r] by blast
qed

subsection \<open>Evaluated runs\<close>

lemmas arith_eval = int_mod_def int_div_def int_add_def int_sub_def int_mul_def checked_def in_int_simps
  urem_def to_unsigned_def UMOD_def uadd_def to_int_def signed_modulo_int_def signed_divide_int_def
  to_string_def digits.simps

lemmas harness_eval = for_loop.simps resetStats_def draw_def gen_draw_def doPut_def doGet_def
  setCache_def getCache_def showProgress_def counter_def Let_def
  CacheTest_new_def initCaches_def TestConfig_new_def CacheTest.extend_def
  setOperations_def setCapacity_def setShowProgressBar_def setProgressInterval_def

lemmas hot_eval = hot_runTestForCacheType_def hot_put_body_def hot_get_body_def hotKey_def
  HotDataAccessTest_new_def HotDataAccessTest.fields_def setHotKeys_def setColdKeys_def setHotRatio_def

lemmas spec_policy_eval = spec_policy_def new_cache_def new_lru_def new_lfu_def new_arc_def
  lru_put_def lru_get_def remove_key_def lfu_put_def lfu_get_def lfu_promote_def lfu_decay_def
  lfu_evict_def bucket_def overwrite_value_def halve_counts_def node_counts_def
  arc_put_def arc_get_def REPLACE_def adapt_B1_def adapt_B2_def arc_make_room_def

lemma hot_small_run:
  "\<exists>st'. hot_runTestForCacheType spec_policy LRU (setOperations 2 (HotDataAccessTest_new spec_policy seed7)) = Inr st' \<and>
     calls st' = [Put 7 ''value7'', Put 7 ''value7'', Get 7 (Some ''value7''), Get 7 (Some ''value7'')] \<and>
     hits st' LRU = Some 2 \<and> operations_map st' LRU = Some 2"
  by (simp add: hot_eval harness_eval arith_eval spec_policy_eval seed7_def)

text \<open>
  Claim C7: in a \<^verbatim>\<open>HotDataAccessTest\<close> object every put passes the value
  \<^verbatim>\<open>"value" + std::to_string(key)\<close>, a function of the key alone; so for a cache with the
  no-phantoms guarantee, every get of a completed \<^verbatim>\<open>runTestForCacheType\<close> that succeeds
  yields \<^verbatim>\<open>"value" + std::to_string(key)\<close>.
\<close>

theorem hot_get_yields_value_of_key:
  assumes "no_phantoms P" and "hot_object P st" and "hot_runTestForCacheType P t st = Inr st'"
  shows "\<exists>new. calls st' = calls st @ new \<and>
    (\<forall>c\<in>set new.
       case c of Put k v \<Rightarrow> v = ''value'' @ to_string k
       | Get k r \<Rightarrow> r = None \<or> r = Some (''value'' @ to_string k))"
  using hot_run_phantom_free [OF assms(1) _ assms(3)] hot_object_invariant [OF assms(2)] by blast

theorem hot_get_yields_value_of_key_witness:
  "no_phantoms spec_policy \<and>
   (\<exists>st'. hot_runTestForCacheType spec_policy LRU (setOperations 2 (HotDataAccessTest_new spec_policy seed7)) = Inr st' \<and>
      calls st' = [Put 7 ''value7'', Put 7 ''value7'', Get 7 (Some ''value7''), Get 7 (Some ''value7'')] \<and>
      (\<forall>c\<in>set (calls st').
         case c of Put k v \<Rightarrow> v = ''value'' @ to_string k
         | Get k r \<Rightarrow> r = None \<or> r = Some (''value'' @ to_string k)))"
proof -
  let ?st = "setOperations 2 (HotDataAccessTest_new spec_policy seed7)"
  from hot_small_run obtain st' where run: "hot_runTestForCacheType spec_policy LRU ?st = Inr st'"
    and c: "calls st' = [Put 7 ''value7'', Put 7 ''value7'', Get 7 (Some ''value7''), Get 7 (Some ''value7'')]"
    by blast
  have o: "hot_object spec_policy ?st" by (intro hot_setOperations hot_new)
  have "calls ?st = []" by (simp add: setOperations_def new_hot_fields)
  with hot_get_yields_value_of_key [OF no_phantoms_spec_policy o run]
  have "\<forall>c\<in>set (calls st').
         case c of Put k v \<Rightarrow> v = ''value'' @ to_string k
         | Get k r \<Rightarrow> r = None \<or> r = Some (''value'' @ to_string k)"
    by auto
  then show ?thesis using no_phantoms_spec_policy run c by blast
qed

subsection \<open>The loop-pattern test\<close>

lemma phase_loop_with:
  fixes f :: "'s \<Rightarrow> ('c, 'z) CacheTest_scheme"
  assumes loop: "for_loop 0 n body s0 = Inr s1"
    and inv0: "run_inv P t st (f s0)" and J0: "J 0 s0"
    and step: "\<And>j s s'. 0 \<le> j \<Longrightarrow> j < n \<Longrightarrow> run_inv P t st (f s) \<Longrightarrow> J j s \<Longrightarrow> body j s = Inr s' \<Longrightarrow>
       run_inv P t st (f s') \<and> J (j + 1) s' \<and>
       (\<exists>c. new_calls (calls st) (f s') = new_calls (calls st) (f s) @ [c] \<and> Q j c)"
  shows "run_inv P t st (f s1) \<and> J (max 0 n) s1 \<and>
    (\<exists>cs. new_calls (calls st) (f s1) = new_calls (calls st) (f s0) @ cs \<and> length cs = nat n \<and>
       (\<forall>i<nat n. Q (int i) (cs ! i)))"
proof -
  define I where "I j s \<longleftrightarrow> 0 \<le> j \<and> run_inv P t st (f s) \<and> J j s \<and>
    (\<exists>cs. new_calls (calls st) (f s) = new_calls (calls st) (f s0) @ cs \<and> length cs = nat j \<and>
       (\<forall>i<nat j. Q (int i) (cs ! i)))" for j s
  have "I (max 0 n) s1"
  proof (rule for_loop_invariant [OF loop])
    show "I 0 s0" using inv0 J0 by (simp add: I_def)
  next
    fix j s s'
    assume j: "0 \<le> j" "j < n" and I: "I j s" and b: "body j s = Inr s'"
    from I obtain cs where inv: "run_inv P t st (f s)" and J: "J j s"
      and cs: "new_calls (calls st) (f s) = new_calls (calls st) (f s0) @ cs" "length cs = nat j"
        "\<forall>i<nat j. Q (int i) (cs ! i)"
      by (auto simp add: I_def)
    from step [OF j inv J b] obtain c where inv': "run_inv P t st (f s')" and J': "J (j + 1) s'"
      and c: "new_calls (calls st) (f s') = new_calls (calls st) (f s) @ [c]" "Q j c"
      by blast
    have n1: "nat (j + 1) = Suc (nat j)" using j(1) by simp
    have "\<forall>i<Suc (nat j). Q (int i) ((cs @ [c]) ! i)"
    proof (intro allI impI)
      fix i assume "i < Suc (nat j)"
      then consider "i < nat j" | "i = nat j" by linarith
      then show "Q (int i) ((cs @ [c]) ! i)"
      proof cases
        case 1
        then show ?thesis using cs(2,3) by (simp add: nth_append)
      next
        case 2
        then show ?thesis using cs(2) c(2) j(1) by (simp add: nth_append)
      qed
    qed
    moreover have "new_calls (calls st) (f s') = new_calls (calls st) (f s0) @ (cs @ [c])"
      using c(1) cs(1) by simp
    moreover have "length (cs @ [c]) = Suc (nat j)" using cs(2) by simp
    ultimately show "I (j + 1) s'"
      unfolding I_def n1 using inv' J' j(1) by (intro conjI exI [of _ "cs @ [c]"]) simp_all
  qed
  moreover have "nat (max 0 n) = nat n" by simp
  ultimately show ?thesis unfolding I_def by simp
qed

lemma nth_eq_map_upto:
  assumes "length cs = nat n" and "\<forall>i<nat n. cs ! i = F (int i)"
  shows "cs = map F [0..n - 1]"
proof (rule nth_equalityI)
  show "length cs = length (map F [0..n - 1])" using assms(1) by simp
next
  fix i assume "i < length cs"
  then have i: "i < nat n" using assms(1) by simp
  then have "[0..n - 1] ! i = 0 + int i" by (intro nth_upto) linarith
  then show "cs ! i = map F [0..n - 1] ! i" using assms(2) i by simp
qed

lemma loop_more_fields:
  fixes s st :: "'c LoopPatternTest"
  assumes "CacheTest.more s = CacheTest.more st"
  shows "loopSize s = loopSize st" and "sequentialRatio s = sequentialRatio st" and "randomRatio s = randomRatio st"
proof -
  obtain a1 a2 a3 a4 a5 a6 a7 a8 a9 a10 a11 where s: "s = \<lparr>config = a1, lruCache = a2, lfuCache = a3, arcCache = a4,
      hits = a5, operations_map = a6, gen = a7, calls = a8, loopSize = a9, sequentialRatio = a10, randomRatio = a11\<rparr>"
    by (cases s) auto
  obtain b1 b2 b3 b4 b5 b6 b7 b8 b9 b10 b11 where st: "st = \<lparr>config = b1, lruCache = b2, lfuCache = b3, arcCache = b4,
      hits = b5, operations_map = b6, gen = b7, calls = b8, loopSize = b9, sequentialRatio = b10, randomRatio = b11\<rparr>"
    by (cases st) auto
  show "loopSize s = loopSize st" and "sequentialRatio s = sequentialRatio st" and "randomRatio s = randomRatio st"
    using assms unfolding s st by simp_all
qed

lemma loop_same_setup:
  fixes s st :: "'c LoopPatternTest"
  assumes "same_setup st s"
  shows "loopSize s = loopSize st" and "sequentialRatio s = sequentialRatio st" and "randomRatio s = randomRatio st"
    and "config s = config st"
  using assms loop_more_fields [of s st] by (simp_all add: same_setup_def)

lemma scan_pos_range: "loop_pre st \<Longrightarrow> 0 \<le> scan_pos st i \<and> scan_pos st i < loopSize st"
  by (induction i) (simp_all add: loop_pre_def)

lemma mod_succ: "((a::int) mod m + 1) mod m = (a + 1) mod m"
  by (simp add: mod_add_left_eq)

lemma scan_pos_count:
  "scan_pos st i = int (length (filter (\<lambda>j. int j mod 100 < sequentialRatio st) [0..<i])) mod loopSize st"
proof (induction i)
  case 0
  show ?case by simp
next
  case (Suc i)
  define c where "c = length (filter (\<lambda>j. int j mod 100 < sequentialRatio st) [0..<i])"
  have IH: "scan_pos st i = int c mod loopSize st" using Suc by (simp add: c_def)
  show ?case
  proof (cases "int i mod 100 < sequentialRatio st")
    case True
    have "scan_pos st (Suc i) = (int c mod loopSize st + 1) mod loopSize st"
      using True IH by simp
    also have "\<dots> = (int c + 1) mod loopSize st" by (rule mod_succ)
    also have "\<dots> = int (Suc c) mod loopSize st" by (simp add: add.commute)
    finally show ?thesis using True by (simp add: c_def)
  next
    case False
    then show ?thesis using IH by (simp add: c_def)
  qed
qed

lemma loop_fill_body_Inr:
  assumes "loop_fill_body P t key s = Inr s'"
  shows "s' = doPut P t key (''loop'' @ to_string key) s"
  using assms by (auto simp add: loop_fill_body_def Let_def bindE_eq_Inr split: if_splits)

lemma loopKey_Inr:
  assumes k: "loopKey op (pos, s) = Inr (key, pos', s1)"
  shows "s1 = s \<or> s1 = snd (draw s)"
    and "loop_pre s \<Longrightarrow> 0 \<le> op \<Longrightarrow> 0 \<le> pos \<Longrightarrow> pos < loopSize s \<Longrightarrow>
      (if op mod 100 < sequentialRatio s then key = pos \<and> pos' = (pos + 1) mod loopSize s
       else pos' = pos \<and>
         (if op mod 100 < sequentialRatio s + randomRatio s then 0 \<le> key \<and> key < loopSize s
          else loopSize s \<le> key \<and> key < 2 * loopSize s))"
proof -
  from k obtain r where r: "int_mod op 100 = Inr r"
    by (auto simp add: loopKey_def Let_def bindE_eq_Inr)
  show "s1 = s \<or> s1 = snd (draw s)"
    using k r by (auto simp add: loopKey_def Let_def bindE_eq_Inr split: if_splits)
  assume pre: "loop_pre s" and op: "0 \<le> op" and pos: "0 \<le> pos" "pos < loopSize s"
  have ls: "0 < loopSize s" "in_int (loopSize s)" "loopSize s \<le> 1073741824"
    using pre by (simp_all add: loop_pre_def in_int_simps)
  have r': "r = op mod 100" using int_mod_Inr [OF r] op by (simp add: smod_nonneg)
  define u where "u = fst (draw s) mod loopSize s"
  have u: "0 \<le> u" "u < loopSize s" using ls(1) by (simp_all add: u_def)
  have ur: "urem (fst (draw s)) (loopSize s) = Inr u" using ls by (simp add: urem_pos u_def)
  show "if op mod 100 < sequentialRatio s then key = pos \<and> pos' = (pos + 1) mod loopSize s
       else pos' = pos \<and>
         (if op mod 100 < sequentialRatio s + randomRatio s then 0 \<le> key \<and> key < loopSize s
          else loopSize s \<le> key \<and> key < 2 * loopSize s)"
  proof (cases "r < sequentialRatio s")
    case True
    from k r True obtain n p where n: "int_add pos 1 = Inr n" and p: "int_mod n (loopSize s) = Inr p"
      and e: "key = pos" "pos' = p"
      by (auto simp add: loopKey_def Let_def bindE_eq_Inr)
    have "n = pos + 1" using n by (simp add: int_add_Inr)
    then have "p = (pos + 1) mod loopSize s"
      using int_mod_Inr [OF p] pos ls(1) by (simp add: smod_nonneg)
    then show ?thesis using True e r' by simp
  next
    case False
    from k r False obtain sr where sr: "int_add (sequentialRatio s) (randomRatio s) = Inr sr"
      by (auto simp add: loopKey_def Let_def bindE_eq_Inr)
    have sr': "sr = sequentialRatio s + randomRatio s" using sr by (simp add: int_add_Inr)
    show ?thesis
    proof (cases "r < sr")
      case True
      have "key = to_int u" "pos' = pos"
        using k r False sr True ur by (simp_all add: loopKey_def Let_def)
      moreover have "to_int u = u" using u ls(3) by (intro to_int_small) simp_all
      ultimately show ?thesis using False True r' sr' u by simp
    next
      case F2: False
      have e: "key = to_int (uadd (loopSize s) u)" "pos' = pos"
        using k r False sr F2 ur by (simp_all add: loopKey_def Let_def)
      have ub: "u < 2 ^ 32" "loopSize s + u < 2 ^ 31" using u ls(3) by simp_all
      have "uadd (loopSize s) u = loopSize s + u"
        using ls(1) ls(2) u(1) ub(1) by (rule uadd_small [OF less_imp_le])
      moreover have "0 \<le> loopSize s + u" using ls(1) u(1) by linarith
      ultimately have "key = loopSize s + u" using e(1) ub(2) by (simp add: to_int_small)
      then show ?thesis using False F2 r' sr' u e(2) by simp
    qed
  qed
qed

lemma loop_setup_eqs:
  fixes s st :: "'c LoopPatternTest"
  assumes "same_setup st s"
  shows "loop_pre s = loop_pre st"
  using loop_same_setup [OF assms] by (simp add: loop_pre_def)

lemma loop_fill_step:
  assumes b: "loop_fill_body P t j s = Inr s'" and inv: "run_inv P t st s"
  shows "run_inv P t st s' \<and>
    (\<exists>c. new_calls (calls st) s' = new_calls (calls st) s @ [c] \<and> c = Put j (''loop'' @ to_string j))"
proof -
  have s': "s' = doPut P t j (''loop'' @ to_string j) s" using b by (rule loop_fill_body_Inr)
  have si: "stats_inv t (calls st) s" using inv by (simp add: run_inv_def)
  show ?thesis unfolding s' using run_inv_doPut [OF inv] stats_inv_doPut(2) [OF si] by simp
qed

lemma loop_access_step:
  assumes b: "loop_access_body P t j cs = Inr cs'" and inv: "run_inv P t st (snd cs)" and j: "0 \<le> j"
    and J: "loop_pre st \<longrightarrow> fst cs = scan_pos st (nat j)"
  shows "run_inv P t st (snd cs')"
    and "loop_pre st \<longrightarrow> fst cs' = scan_pos st (nat (j + 1))"
    and "\<exists>c. new_calls (calls st) (snd cs') = new_calls (calls st) (snd cs) @ [c] \<and> loop_get_call st j c"
    and "access_step P t (snd cs) (snd cs')"
proof -
  obtain pos s where cs: "cs = (pos, s)" by (cases cs)
  from b obtain key pos' s1 s2 where k: "loopKey j (pos, s) = Inr (key, pos', s1)"
    and g: "doGet P t key s1 = Inr s2" and cs': "cs' = (pos', s2)"
    unfolding cs by (auto simp add: loop_access_body_def bindE_eq_Inr)
  have inv0: "run_inv P t st s" using inv cs by simp
  note e = loop_same_setup [OF run_inv_same [OF inv0]]
  have s1: "s1 = s \<or> s1 = snd (draw s)" using loopKey_Inr(1) [OF k] .
  then have inv1: "run_inv P t st s1" using inv0 run_inv_draw [OF inv0] by auto
  have n1: "new_calls (calls st) s1 = new_calls (calls st) s" and c1: "getCache t s1 = getCache t s"
    and o1: "operations_map s1 = operations_map s" "hits s1 = hits s" "calls s1 = calls s"
    using s1 by auto
  show "run_inv P t st (snd cs')" unfolding cs' using run_inv_doGet [OF inv1 g] by simp
  have si: "stats_inv t (calls st) s1" using inv1 by (simp add: run_inv_def)
  have n: "new_calls (calls st) s2 = new_calls (calls st) s @ [Get key (fst (cache_get P key (getCache t s)))]"
    using stats_inv_doGet(2) [OF si g] n1 c1 by simp
  have key: "loop_pre st \<longrightarrow> loop_key_ok st j key \<and> pos' = scan_pos st (nat (j + 1))"
  proof
    assume pre: "loop_pre st"
    then have pre': "loop_pre s" using loop_setup_eqs [OF run_inv_same [OF inv0]] by simp
    have pos: "pos = scan_pos st (nat j)" using J pre cs by simp
    then have r: "0 \<le> pos" "pos < loopSize s" using scan_pos_range [OF pre, of "nat j"] e by simp_all
    have n1: "nat (j + 1) = Suc (nat j)" using j by simp
    from loopKey_Inr(2) [OF k pre' j r]
    show "loop_key_ok st j key \<and> pos' = scan_pos st (nat (j + 1))"
      unfolding n1 using pos e j by (auto simp add: loop_key_ok_def split: if_splits)
  qed
  then show "loop_pre st \<longrightarrow> fst cs' = scan_pos st (nat (j + 1))" using cs' by simp
  have "loop_get_call st j (Get key (fst (cache_get P key (getCache t s))))"
    using key by (auto simp add: loop_get_call_def)
  then show "\<exists>c. new_calls (calls st) (snd cs') = new_calls (calls st) (snd cs) @ [c] \<and> loop_get_call st j c"
    using n cs cs' by simp
  show "access_step P t (snd cs) (snd cs')"
    using doGet_access_step [OF g] c1 o1 unfolding cs cs' by (simp add: access_step_def)
qed

lemma loop_run_log:
  assumes run: "loop_runTestForCacheType P t st = Inr st'"
  shows "run_inv P t st st' \<and>
    (\<exists>gets. new_calls (calls st) st' =
        map (\<lambda>k. Put k (''loop'' @ to_string k)) [0..loopSize st - 1] @ gets \<and>
       length gets = nat (operations (config st)) \<and>
       (\<forall>i<nat (operations (config st)). loop_get_call st (int i) (gets ! i)))"
proof -
  let ?n = "operations (config st)"
  from run obtain s1 cs where l1: "for_loop 0 (loopSize st) (loop_fill_body P t) (resetStats t st) = Inr s1"
    and l2: "for_loop 0 (operations (config s1)) (loop_access_body P t) (0, s1) = Inr cs"
    and st': "st' = snd cs"
    by (auto simp add: loop_runTestForCacheType_def bindE_eq_Inr)
  have p1: "run_inv P t st s1 \<and>
    (\<exists>cs. new_calls (calls st) s1 = new_calls (calls st) (resetStats t st) @ cs \<and> length cs = nat (loopSize st) \<and>
       (\<forall>i<nat (loopSize st). cs ! i = Put (int i) (''loop'' @ to_string (int i))))"
  proof (rule phase_loop [where f = "\<lambda>s. s" and Q = "\<lambda>j c. c = Put j (''loop'' @ to_string j)", OF l1])
    show "run_inv P t st (resetStats t st)" by (rule run_inv_reset)
  next
    fix j s s'
    assume "0 \<le> j" "j < loopSize st" "run_inv P t st s" "loop_fill_body P t j s = Inr s'"
    then show "run_inv P t st s' \<and>
       (\<exists>c. new_calls (calls st) s' = new_calls (calls st) s @ [c] \<and> c = Put j (''loop'' @ to_string j))"
      using loop_fill_step [of P t j s s' st] by blast
  qed
  then obtain fills where inv1: "run_inv P t st s1" and fills: "new_calls (calls st) s1 = fills"
    "length fills = nat (loopSize st)" "\<forall>i<nat (loopSize st). fills ! i = Put (int i) (''loop'' @ to_string (int i))"
    by auto
  have f: "fills = map (\<lambda>k. Put k (''loop'' @ to_string k)) [0..loopSize st - 1]"
    using fills(2,3) by (rule nth_eq_map_upto)
  have n1: "operations (config s1) = ?n" using run_inv_same [OF inv1] by (simp add: same_setup_def)
  have p2: "run_inv P t st (snd cs) \<and> (loop_pre st \<longrightarrow> fst cs = scan_pos st (nat (max 0 ?n))) \<and>
    (\<exists>gs. new_calls (calls st) (snd cs) = new_calls (calls st) (snd (0::int, s1)) @ gs \<and> length gs = nat ?n \<and>
       (\<forall>i<nat ?n. loop_get_call st (int i) (gs ! i)))"
  proof (rule phase_loop_with [where f = snd and Q = "loop_get_call st"
        and J = "\<lambda>j cs. loop_pre st \<longrightarrow> fst cs = scan_pos st (nat j)", OF l2 [unfolded n1]])
    show "run_inv P t st (snd (0::int, s1))" using inv1 by simp
    show "loop_pre st \<longrightarrow> fst (0::int, s1) = scan_pos st (nat 0)" by simp
  next
    fix j cs cs'
    assume "0 \<le> j" "j < ?n" "run_inv P t st (snd cs)" "loop_pre st \<longrightarrow> fst cs = scan_pos st (nat j)"
      "loop_access_body P t j cs = Inr cs'"
    then show "run_inv P t st (snd cs') \<and> (loop_pre st \<longrightarrow> fst cs' = scan_pos st (nat (j + 1))) \<and>
       (\<exists>c. new_calls (calls st) (snd cs') = new_calls (calls st) (snd cs) @ [c] \<and> loop_get_call st j c)"
      using loop_access_step(1,2,3) [of P t j cs cs' st] by blast
  qed
  then obtain gs where inv2: "run_inv P t st (snd cs)"
    and gs: "new_calls (calls st) (snd cs) = new_calls (calls st) s1 @ gs" "length gs = nat ?n"
      "\<forall>i<nat ?n. loop_get_call st (int i) (gs ! i)"
    by auto
  have "new_calls (calls st) (snd cs) = map (\<lambda>k. Put k (''loop'' @ to_string k)) [0..loopSize st - 1] @ gs"
    using gs(1) fills(1) f by simp
  then show ?thesis unfolding st' using inv2 gs(2,3) by blast
qed

lemma put_pairs_map_put: "put_pairs (map (\<lambda>k. Put k (F k)) ks) = map (\<lambda>k. (k, F k)) ks"
  by (induction ks) simp_all

lemma put_pairs_gets: "\<forall>c\<in>set gs. is_get c \<Longrightarrow> put_pairs gs = []"
proof (induction gs)
  case Nil
  show ?case by simp
next
  case (Cons c gs)
  then show ?case by (cases c) simp_all
qed

lemma loop_get_call_is_get: "loop_get_call st i c \<Longrightarrow> is_get c"
  by (auto simp add: loop_get_call_def)

lemma loop_fill_body_total:
  assumes pre: "loop_total_pre st" and same: "same_setup st s" and j: "0 \<le> j" "j < loopSize st"
  shows "\<exists>s'. loop_fill_body P t j s = Inr s'"
proof -
  have pr: "showProgressBar (config st) \<longrightarrow> progressInterval (config st) \<noteq> 0"
    and l: "0 < loopSize st" "loopSize st \<le> 2 ^ 30"
    using pre by (simp_all add: loop_total_pre_def progress_ok_def loop_pre_def)
  note e = loop_same_setup [OF same]
  have li: "in_int (loopSize st)" using l by (simp add: in_int_simps)
  note i = next_index [OF j li]
  have m: "int_mod j 100 = Inr (j smod 100)" using j i(4) by (intro int_mod_total) simp_all
  have sb: "int_sub (loopSize st) 1 = Inr (loopSize st - 1)"
    using l by (simp add: int_sub_def checked_def in_int_simps)
  let ?s1 = "doPut P t j (''loop'' @ to_string j) s"
  have ls: "loopSize ?s1 = loopSize st" "config ?s1 = config st"
    using e loop_more_fields [of ?s1 s] by simp_all
  have sp: "showProgress ?s1 (j + 1) (loopSize ?s1) = Inr ()"
    using pr i ls by (intro showProgress_total) simp_all
  define b where "b \<longleftrightarrow> j smod 100 = 0 \<or> j = loopSize st - 1"
  have t: "bindE (if j smod 100 = 0 then Inr True else bindE (int_sub (loopSize ?s1) 1) (\<lambda>l. Inr (j = l))) f = f b"
    for f :: "bool \<Rightarrow> error + 'a LoopPatternTest"
    using sb ls(1) by (simp add: b_def)
  have "loop_fill_body P t j s = (if b then Inr ?s1 else Inr ?s1)"
    unfolding loop_fill_body_def Let_def m bindE_Inr t i(1) sp by simp
  then show ?thesis by simp
qed

lemma loopKey_total:
  assumes pre: "loop_pre s" and r: "loop_ratio_inv s" and op: "0 \<le> op" "in_int op"
    and pos: "0 \<le> pos" "pos < loopSize s"
  shows "\<exists>key pos' s1. loopKey op (pos, s) = Inr (key, pos', s1)"
proof -
  have l: "0 < loopSize s" "loopSize s \<le> 2 ^ 30" using pre by (simp_all add: loop_pre_def)
  have li: "in_int (loopSize s)" using l by (simp add: in_int_simps)
  have m: "int_mod op 100 = Inr (op smod 100)" using op by (intro int_mod_total) simp_all
  have a: "int_add pos 1 = Inr (pos + 1)" using pos l by (simp add: int_add_def checked_def in_int_simps)
  have "in_int (pos + 1)" using pos l by (simp add: in_int_simps)
  then have n: "int_mod (pos + 1) (loopSize s) = Inr ((pos + 1) smod loopSize s)"
    using pos l by (intro int_mod_total) simp_all
  have sr: "int_add (sequentialRatio s) (randomRatio s) = Inr (sequentialRatio s + randomRatio s)"
    using r by (simp add: loop_ratio_inv_def int_add_def checked_def in_int_simps)
  have u: "urem (fst (draw s)) (loopSize s) = Inr (fst (draw s) mod loopSize s)"
    using l li by (intro urem_pos)
  show ?thesis using m a n sr u by (simp add: loopKey_def Let_def)
qed

lemma loop_access_body_total:
  assumes pre: "loop_total_pre st" and inv: "run_inv P t st (snd cs)"
    and j: "0 \<le> j" "j < operations (config st)"
    and pos: "fst cs = scan_pos st (nat j)"
    and cnt: "length (filter is_get (new_calls (calls st) (snd cs))) \<le> nat j"
  shows "\<exists>cs'. loop_access_body P t j cs = Inr cs'"
proof -
  obtain p s where cs: "cs = (p, s)" by (cases cs)
  have n: "in_int (operations (config st))" and pr: "showProgressBar (config st) \<longrightarrow> progressInterval (config st) \<noteq> 0"
    and lp: "loop_pre st" and ri: "loop_ratio_inv st"
    using pre by (simp_all add: loop_total_pre_def progress_ok_def)
  have inv0: "run_inv P t st s" using inv cs by simp
  have same: "same_setup st s" using inv0 by (rule run_inv_same)
  note e = loop_same_setup [OF same]
  note i = next_index [OF j n]
  have lp': "loop_pre s" using lp loop_setup_eqs [OF same] by simp
  have ri': "loop_ratio_inv s" using ri e by (simp add: loop_ratio_inv_def)
  have pr': "0 \<le> p" "p < loopSize s" using scan_pos_range [OF lp, of "nat j"] pos cs e by simp_all
  from loopKey_total [OF lp' ri' j(1) i(4) pr'] obtain key pos' s1
    where k: "loopKey j (p, s) = Inr (key, pos', s1)" by blast
  have s1: "s1 = s \<or> s1 = snd (draw s)" using loopKey_Inr(1) [OF k] .
  then have inv1: "run_inv P t st s1" using inv0 run_inv_draw [OF inv0] by auto
  have n1: "new_calls (calls st) s1 = new_calls (calls st) s" using s1 by auto
  have si: "stats_inv t (calls st) s1" using inv1 by (simp add: run_inv_def)
  have "int (length (filter is_get (new_calls (calls st) s1))) < 2147483647"
    using cnt j n n1 cs by (simp add: in_int_simps)
  from doGet_total_inv [OF si this] obtain s2 where s2: "doGet P t key s1 = Inr s2" by blast
  have "config s1 = config st" using s1 e by auto
  then have "config s2 = config st" using doGet_Inr(1) [OF s2] by simp
  then have "showProgress s2 (j + 1) (operations (config s2)) = Inr ()"
    using pr i by (intro showProgress_total) simp_all
  then show ?thesis using k s2 i(1) cs by (simp add: loop_access_body_def)
qed

lemma loop_run_total:
  assumes pre: "loop_total_pre st"
  shows "\<exists>st'. loop_runTestForCacheType P t st = Inr st'"
proof -
  let ?n = "operations (config st)"
  have lp: "loop_pre st" using pre by (simp add: loop_total_pre_def)
  have "\<exists>s1. for_loop 0 (loopSize st) (loop_fill_body P t) (resetStats t st) = Inr s1 \<and>
      (run_inv P t st s1 \<and> filter is_get (new_calls (calls st) s1) = [])"
  proof (rule for_loop_total [where I = "\<lambda>j s. run_inv P t st s \<and> filter is_get (new_calls (calls st) s) = []"])
    show "run_inv P t st (resetStats t st) \<and> filter is_get (new_calls (calls st) (resetStats t st)) = []"
      by (simp add: run_inv_reset)
    show "0 \<le> loopSize st" using lp by (simp add: loop_pre_def)
  next
    fix j s
    assume j: "0 \<le> j" "j < loopSize st" and I: "run_inv P t st s \<and> filter is_get (new_calls (calls st) s) = []"
    from loop_fill_body_total [OF pre run_inv_same j] I obtain s' where s': "loop_fill_body P t j s = Inr s'"
      by blast
    have inv: "run_inv P t st s" using I by simp
    from loop_fill_step [OF s' inv] have "run_inv P t st s'"
      "new_calls (calls st) s' = new_calls (calls st) s @ [Put j (''loop'' @ to_string j)]" by auto
    then show "\<exists>s'. loop_fill_body P t j s = Inr s' \<and>
        (run_inv P t st s' \<and> filter is_get (new_calls (calls st) s') = [])"
      using s' I by (intro exI [of _ s']) simp
  qed
  then obtain s1 where l1: "for_loop 0 (loopSize st) (loop_fill_body P t) (resetStats t st) = Inr s1"
    and inv1: "run_inv P t st s1" and g1: "filter is_get (new_calls (calls st) s1) = []"
    by blast
  have n1: "operations (config s1) = ?n" using run_inv_same [OF inv1] by (simp add: same_setup_def)
  show ?thesis
  proof (cases "0 \<le> ?n")
    case False
    then have "for_loop 0 ?n (loop_access_body P t) (0, s1) = Inr (0, s1)"
      by (simp add: for_loop_empty)
    then show ?thesis using l1 n1 by (simp add: loop_runTestForCacheType_def)
  next
    case True
    define I where "I j cs \<longleftrightarrow> run_inv P t st (snd cs) \<and> fst cs = scan_pos st (nat j) \<and>
      length (filter is_get (new_calls (calls st) (snd cs))) \<le> nat j" for j and cs :: "int \<times> 'a LoopPatternTest"
    have "\<exists>cs. for_loop 0 ?n (loop_access_body P t) (0, s1) = Inr cs \<and> I ?n cs"
    proof (rule for_loop_total [where I = I])
      show "I 0 (0, s1)" using inv1 g1 by (simp add: I_def)
      show "0 \<le> ?n" by (rule True)
    next
      fix j cs
      assume j: "0 \<le> j" "j < ?n" and I: "I j cs"
      have inv: "run_inv P t st (snd cs)" and pos: "fst cs = scan_pos st (nat j)"
        and cnt: "length (filter is_get (new_calls (calls st) (snd cs))) \<le> nat j"
        using I by (simp_all add: I_def)
      from loop_access_body_total [OF pre inv j pos cnt] obtain cs'
        where b: "loop_access_body P t j cs = Inr cs'" by blast
      have J: "loop_pre st \<longrightarrow> fst cs = scan_pos st (nat j)" using pos by simp
      from loop_access_step(1,2,3) [OF b inv j(1) J] lp obtain c
        where inv': "run_inv P t st (snd cs')" and pos': "fst cs' = scan_pos st (nat (j + 1))"
          and c: "new_calls (calls st) (snd cs') = new_calls (calls st) (snd cs) @ [c]"
        by blast
      have "length (filter is_get (new_calls (calls st) (snd cs'))) \<le> nat (j + 1)"
        using c cnt j(1) by (simp add: nat_add_distrib)
      then show "\<exists>cs'. loop_access_body P t j cs = Inr cs' \<and> I (j + 1) cs'"
        using b inv' pos' by (simp add: I_def)
    qed
    then obtain cs where "for_loop 0 ?n (loop_access_body P t) (0, s1) = Inr cs" by blast
    then show ?thesis using l1 n1 by (simp add: loop_runTestForCacheType_def)
  qed
qed

lemma main_loopTest_Inr:
  "\<exists>s1 st. setCapacity P 50 (LoopPatternTest_new P g) = Inr s1 \<and> main_loopTest P g = Inr st \<and>
     config st = \<lparr>capacity = 50, operations = 100000, showProgressBar = True, progressInterval = 10000\<rparr> \<and>
     loopSize st = 500 \<and> sequentialRatio st = 60 \<and> randomRatio st = 30 \<and> calls st = [] \<and>
     (\<forall>t. getCache t st = getCache t s1)"
  by (simp add: main_loopTest_def setCapacity_Inr setSequentialRatio_def setRandomRatio_def
      setLoopSize_def setOperations_def clamp_ratio_def Let_def int_add_def int_sub_def checked_def
      in_int_simps LoopPatternTest_new_def CacheTest_new_def TestConfig_new_def CacheTest.extend_def
      LoopPatternTest.fields_def getCache_def split: CacheType.splits)

lemma main_loopTest_pre:
  assumes "main_loopTest P g = Inr st"
  shows "loop_total_pre st" and "reach P (getCache t st) []" and "loopSize st = 500"
    and "operations (config st) = 100000" and "calls st = []"
    and "sequentialRatio st = 60" and "randomRatio st = 30"
proof -
  from main_loopTest_Inr [of P g] assms obtain s1 where c: "setCapacity P 50 (LoopPatternTest_new P g) = Inr s1"
    and f: "config st = \<lparr>capacity = 50, operations = 100000, showProgressBar = True, progressInterval = 10000\<rparr>"
      "loopSize st = 500" "sequentialRatio st = 60" "randomRatio st = 30" "calls st = []"
    and g: "\<forall>t. getCache t st = getCache t s1"
    by auto
  show "loop_total_pre st"
    using f by (simp add: loop_total_pre_def progress_ok_def loop_pre_def loop_ratio_inv_def in_int_simps)
  have "getCache t st = cache_new P t (nat 50)" using g getCache_setCapacity [OF c] by simp
  then show "reach P (getCache t st) []" by (simp add: reach_new)
  show "loopSize st = 500" "operations (config st) = 100000" "calls st = []"
    "sequentialRatio st = 60" "randomRatio st = 30" using f by simp_all
qed

lemma loop_run_history:
  assumes r: "reach P (getCache t st) h" and run: "loop_runTestForCacheType P t st = Inr st'"
  shows "reach P (getCache t st') (h @ map (\<lambda>k. (k, ''loop'' @ to_string k)) [0..loopSize st - 1])"
    and "same_setup st st'"
proof -
  let ?fills = "map (\<lambda>k. Put k (''loop'' @ to_string k)) [0..loopSize st - 1]"
  let ?new = "new_calls (calls st) st'"
  from loop_run_log [OF run] obtain gets where inv: "run_inv P t st st'"
    and n: "?new = ?fills @ gets" and l: "length gets = nat (operations (config st))"
    and g: "\<forall>i<nat (operations (config st)). loop_get_call st (int i) (gets ! i)"
    by blast
  have "\<forall>c\<in>set gets. is_get c"
    using g l loop_get_call_is_get by (metis in_set_conv_nth)
  then have pp: "put_pairs ?new = map (\<lambda>k. (k, ''loop'' @ to_string k)) [0..loopSize st - 1]"
    unfolding n by (simp add: put_pairs_append put_pairs_gets put_pairs_map_put)
  have "reach P (replay P (getCache t st) ?new) (h @ put_pairs ?new)"
    using r inv by (intro reach_replay) (simp_all add: run_inv_def)
  moreover have "getCache t st' = replay P (getCache t st) ?new" using inv by (simp add: run_inv_def)
  ultimately show "reach P (getCache t st') (h @ map (\<lambda>k. (k, ''loop'' @ to_string k)) [0..loopSize st - 1])"
    using pp by simp
  show "same_setup st st'" using inv by (rule run_inv_same)
qed

lemma loop_total_pre_same:
  fixes s st :: "'c LoopPatternTest"
  assumes "same_setup st s"
  shows "loop_total_pre s = loop_total_pre st"
  using loop_same_setup [OF assms]
  by (simp add: loop_total_pre_def progress_ok_def loop_pre_def loop_ratio_inv_def)

lemmas loop_eval = loop_runTestForCacheType_def loop_fill_body_def loop_access_body_def loopKey_def
  LoopPatternTest_new_def LoopPatternTest.fields_def setLoopSize_def setSequentialRatio_def
  setRandomRatio_def clamp_ratio_def

text \<open>
  Claim C5, as stated, fails in three ways.  \<^verbatim>\<open>setLoopSize\<close> validates nothing: with loop
  size \<open>-1\<close> the random access of operation 60 reads key 7, not a key of the empty
  range \<open>[0, -1)\<close>; with loop size \<open>2147483647\<close> the out-of-range access of
  operation 90 reads \<open>loopSize + 7\<close> wrapped to \<open>-2147483642\<close>.  And a test object keeps
  its caches between runs: after a run with loop size 2, a second run of the same object
  with loop size 1 (ratios 0 and 0, one operation, LRU of the specification) reads key 1
  of \<open>[loopSize, 2 * loopSize)\<close> and hits, since the first run put that key.
\<close>

theorem loop_key_outside_range:
  "(\<exists>s. loopKey 60 (0, setLoopSize (- 1) (LoopPatternTest_new spec_policy seed0)) = Inr (7, 0, s)) \<and>
   \<not> (0 \<le> (7::int) \<and> 7 < loopSize (setLoopSize (- 1) (LoopPatternTest_new spec_policy seed0))) \<and>
   (\<exists>s. loopKey 90 (0, setLoopSize 2147483647 (LoopPatternTest_new spec_policy seed0))
      = Inr (- 2147483642, 0, s)) \<and>
   \<not> (loopSize (setLoopSize 2147483647 (LoopPatternTest_new spec_policy seed0)) \<le> - 2147483642) \<and>
   (\<exists>st'. bindE (loop_runTestForCacheType spec_policy LRU
              (setOperations 0 (setLoopSize 2 (LoopPatternTest_new spec_policy seed0)))) (\<lambda>s1.
           bindE (setSequentialRatio 0 s1) (\<lambda>s2.
           bindE (setRandomRatio 0 s2) (\<lambda>s3.
             loop_runTestForCacheType spec_policy LRU (setOperations 1 (setLoopSize 1 s3))))) = Inr st' \<and>
      loopSize st' = 1 \<and> sequentialRatio st' = 0 \<and> randomRatio st' = 0 \<and>
      calls st' = [Put 0 ''loop0'', Put 1 ''loop1'', Put 0 ''loop0'', Get 1 (Some ''loop1'')])"
  by (simp add: loop_eval harness_eval arith_eval spec_policy_eval seed0_def)

text \<open>
  Claim C5, amended: for \<open>0 < loopSize \<le> 2^30\<close> and a cache that has received no
  put with a key in \<open>[loopSize, 2 * loopSize)\<close> before the run (as after the constructor
  or \<^verbatim>\<open>setCapacity\<close>, or after earlier runs with the same loop size), a
  \<^verbatim>\<open>runTestForCacheType\<close> of \<^verbatim>\<open>LoopPatternTest\<close> that returns has first put exactly the
  keys \<open>0, \<dots>, loopSize - 1\<close> in this order and then issued \<open>operations\<close> gets.  The
  get of operation \<open>op\<close> reads the scan position when \<open>op % 100 < sequentialRatio\<close>,
  where the scan position starts at 0 and advances by one modulo \<open>loopSize\<close> at every
  such operation; it reads a key of \<open>[0, loopSize)\<close> when
  \<open>sequentialRatio \<le> op % 100 < sequentialRatio + randomRatio\<close>; otherwise it reads a key
  of \<open>[loopSize, 2 * loopSize)\<close>, and for a cache with the no-phantoms guarantee that
  get misses.  The run returns whenever, in addition, the progress interval is not zero
  while the progress bar is shown (\<open>loop_run_total\<close>), as under the configuration of
  \<^verbatim>\<open>main()\<close>.
\<close>

theorem loop_pattern_keys:
  assumes "no_phantoms P" and "reach P (getCache t st) h"
    and "\<forall>(k, v)\<in>set h. k < loopSize st \<or> 2 * loopSize st \<le> k"
    and "0 < loopSize st" and "loopSize st \<le> 2 ^ 30"
    and "loop_runTestForCacheType P t st = Inr st'"
  shows "(\<exists>gets. calls st' = calls st @ map (\<lambda>k. Put k (''loop'' @ to_string k)) [0..loopSize st - 1] @ gets \<and>
      length gets = nat (operations (config st)) \<and>
      (\<forall>i<nat (operations (config st)). \<exists>k r. gets ! i = Get k r \<and>
         (if int i mod 100 < sequentialRatio st then k = scan_pos st i
          else if int i mod 100 < sequentialRatio st + randomRatio st then 0 \<le> k \<and> k < loopSize st
          else loopSize st \<le> k \<and> k < 2 * loopSize st \<and> r = None))) \<and>
    (\<forall>i. 0 \<le> scan_pos st i \<and> scan_pos st i < loopSize st \<and>
       scan_pos st i =
         int (length (filter (\<lambda>j. int j mod 100 < sequentialRatio st) [0..<i])) mod loopSize st)"
proof -
  let ?fills = "map (\<lambda>k. Put k (''loop'' @ to_string k)) [0..loopSize st - 1]"
  let ?new = "new_calls (calls st) st'"
  have pre: "loop_pre st" using assms(4,5) by (simp add: loop_pre_def)
  from loop_run_log [OF assms(6)] obtain gets where inv: "run_inv P t st st'"
    and n: "?new = ?fills @ gets" and l: "length gets = nat (operations (config st))"
    and g: "\<forall>i<nat (operations (config st)). loop_get_call st (int i) (gets ! i)"
    by blast
  have c: "calls st' = calls st @ ?fills @ gets" using run_inv_new_calls [OF inv] n by simp
  have cons: "consistent P (getCache t st) (?fills @ gets)" using inv n by (simp add: run_inv_def)
  have "\<forall>c\<in>set gets. is_get c"
    using g l loop_get_call_is_get by (metis in_set_conv_nth)
  then have pp: "put_pairs (?fills @ gets) = map (\<lambda>k. (k, ''loop'' @ to_string k)) [0..loopSize st - 1]"
    by (simp add: put_pairs_append put_pairs_gets put_pairs_map_put)
  have miss: "r = None" if i: "i < nat (operations (config st))" and e: "gets ! i = Get k r"
    and k: "loopSize st \<le> k" "k < 2 * loopSize st" for i k r
  proof (cases r)
    case None
    then show ?thesis .
  next
    case (Some v)
    have "Get k (Some v) \<in> set (?fills @ gets)" using i l e Some by (auto simp add: in_set_conv_nth)
    from no_phantoms_log [OF assms(1,2) cons this]
    have "(k, v) \<in> set h \<or> k \<in> set [0..loopSize st - 1]" unfolding pp by auto
    then show ?thesis using k assms(3) by auto
  qed
  have "\<exists>k r. gets ! i = Get k r \<and>
         (if int i mod 100 < sequentialRatio st then k = scan_pos st i
          else if int i mod 100 < sequentialRatio st + randomRatio st then 0 \<le> k \<and> k < loopSize st
          else loopSize st \<le> k \<and> k < 2 * loopSize st \<and> r = None)"
    if i: "i < nat (operations (config st))" for i
  proof -
    from g i pre obtain k r where e: "gets ! i = Get k r" and ok: "loop_key_ok st (int i) k"
      by (auto simp add: loop_get_call_def)
    show ?thesis using e ok miss [OF i e] by (auto simp add: loop_key_ok_def split: if_splits)
  qed
  then show ?thesis using c l scan_pos_range [OF pre] scan_pos_count by blast
qed

lemma loop_small_run:
  "\<exists>s1 s2 st'. setSequentialRatio 1 (LoopPatternTest_new spec_policy seed0) = Inr s1 \<and>
     setRandomRatio 1 s1 = Inr s2 \<and>
     loop_runTestForCacheType spec_policy ARC (setOperations 3 (setLoopSize 3 s2)) = Inr st' \<and>
     loopSize (setOperations 3 (setLoopSize 3 s2)) = 3 \<and>
     calls (setOperations 3 (setLoopSize 3 s2)) = [] \<and>
     getCache ARC (setOperations 3 (setLoopSize 3 s2)) = cache_new spec_policy ARC 50 \<and>
     calls st' = [Put 0 ''loop0'', Put 1 ''loop1'', Put 2 ''loop2'',
                  Get 0 (Some ''loop0''), Get 1 (Some ''loop1''), Get 5 None] \<and>
     hits st' ARC = Some 2 \<and> operations_map st' ARC = Some 3"
  by (simp add: loop_eval harness_eval arith_eval spec_policy_eval seed0_def)

theorem loop_pattern_keys_witness:
  "no_phantoms spec_policy \<and>
   (\<exists>st st1 st2. main_loopTest spec_policy seed0 = Inr st \<and>
      loop_runTestForCacheType spec_policy ARC st = Inr st1 \<and>
      loop_runTestForCacheType spec_policy ARC st1 = Inr st2 \<and>
      (\<exists>gets. calls st1 = map (\<lambda>k. Put k (''loop'' @ to_string k)) [0..499] @ gets \<and>
         length gets = 100000 \<and> (\<exists>k. gets ! 95 = Get k None \<and> 500 \<le> k \<and> k < 1000)) \<and>
      (\<exists>gets. calls st2 = calls st1 @ map (\<lambda>k. Put k (''loop'' @ to_string k)) [0..499] @ gets \<and>
         length gets = 100000 \<and> (\<exists>k. gets ! 95 = Get k None \<and> 500 \<le> k \<and> k < 1000))) \<and>
   (\<exists>st st'. loopSize st = 3 \<and> reach spec_policy (getCache ARC st) [] \<and>
      loop_runTestForCacheType spec_policy ARC st = Inr st' \<and>
      calls st' = [Put 0 ''loop0'', Put 1 ''loop1'', Put 2 ''loop2'',
                   Get 0 (Some ''loop0''), Get 1 (Some ''loop1''), Get 5 None] \<and>
      (\<exists>gets. calls st' = calls st @ map (\<lambda>k. Put k (''loop'' @ to_string k)) [0..loopSize st - 1] @ gets \<and>
         length gets = nat (operations (config st))))"
proof -
  from loop_small_run obtain s2 st' where
    run: "loop_runTestForCacheType spec_policy ARC (setOperations 3 (setLoopSize 3 s2)) = Inr st'"
    and ls: "loopSize (setOperations 3 (setLoopSize 3 s2)) = 3"
    and fresh: "getCache ARC (setOperations 3 (setLoopSize 3 s2)) = cache_new spec_policy ARC 50"
    and c: "calls st' = [Put 0 ''loop0'', Put 1 ''loop1'', Put 2 ''loop2'',
                  Get 0 (Some ''loop0''), Get 1 (Some ''loop1''), Get 5 None]"
    by blast
  let ?st = "setOperations 3 (setLoopSize 3 s2)"
  have r: "reach spec_policy (getCache ARC ?st) []" unfolding fresh by (rule reach_new)
  have b3: "0 < loopSize ?st" "loopSize ?st \<le> 2 ^ 30" using ls by simp_all
  have h3: "\<forall>(k, v)\<in>set []. k < loopSize ?st \<or> 2 * loopSize ?st \<le> k" by simp
  from loop_pattern_keys [OF no_phantoms_spec_policy r h3 b3 run]
  have "\<exists>gets. calls st' = calls ?st @ map (\<lambda>k. Put k (''loop'' @ to_string k)) [0..loopSize ?st - 1] @ gets \<and>
         length gets = nat (operations (config ?st))"
    by blast
  then have small: "\<exists>st st'. loopSize st = 3 \<and> reach spec_policy (getCache ARC st) [] \<and>
      loop_runTestForCacheType spec_policy ARC st = Inr st' \<and>
      calls st' = [Put 0 ''loop0'', Put 1 ''loop1'', Put 2 ''loop2'',
                   Get 0 (Some ''loop0''), Get 1 (Some ''loop1''), Get 5 None] \<and>
      (\<exists>gets. calls st' = calls st @ map (\<lambda>k. Put k (''loop'' @ to_string k)) [0..loopSize st - 1] @ gets \<and>
         length gets = nat (operations (config st)))"
    using ls r run c by blast
  from main_loopTest_Inr obtain st where m: "main_loopTest spec_policy seed0 = Inr st" by blast
  note p = main_loopTest_pre [OF m]
  from loop_run_total [OF p(1)] obtain st1
    where run1: "loop_runTestForCacheType spec_policy ARC st = Inr st1" by blast
  note h = loop_run_history [OF p(2) run1]
  have e: "loopSize st1 = 500" "operations (config st1) = 100000" "sequentialRatio st1 = 60" "randomRatio st1 = 30"
    using loop_same_setup [OF h(2)] p by simp_all
  have "loop_total_pre st1" using loop_total_pre_same [OF h(2)] p(1) by simp
  from loop_run_total [OF this] obtain st2
    where run2: "loop_runTestForCacheType spec_policy ARC st1 = Inr st2" by blast
  have b: "0 < loopSize st" "loopSize st \<le> 2 ^ 30" "0 < loopSize st1" "loopSize st1 \<le> 2 ^ 30"
    using p(3) e(1) by simp_all
  have h0: "\<forall>(k, v)\<in>set []. k < loopSize st \<or> 2 * loopSize st \<le> k" by simp
  have h1: "\<forall>(k, v)\<in>set ([] @ map (\<lambda>k. (k, ''loop'' @ to_string k)) [0..loopSize st - 1]).
      k < loopSize st1 \<or> 2 * loopSize st1 \<le> k"
    using p(3) e(1) by auto
  from loop_pattern_keys [OF no_phantoms_spec_policy p(2) h0 b(1,2) run1]
  obtain gets1 where g1: "calls st1 = map (\<lambda>k. Put k (''loop'' @ to_string k)) [0..499] @ gets1"
    "length gets1 = 100000"
    and k1: "\<forall>i<100000. \<exists>k r. gets1 ! i = Get k r \<and>
         (if int i mod 100 < 60 then k = scan_pos st i
          else if int i mod 100 < 60 + 30 then 0 \<le> k \<and> k < 500
          else 500 \<le> k \<and> k < 2 * 500 \<and> r = None)"
    unfolding p(3,4,5,6,7) by auto
  from loop_pattern_keys [OF no_phantoms_spec_policy h(1) h1 b(3,4) run2]
  obtain gets2 where g2: "calls st2 = calls st1 @ map (\<lambda>k. Put k (''loop'' @ to_string k)) [0..499] @ gets2"
    "length gets2 = 100000"
    and k2: "\<forall>i<100000. \<exists>k r. gets2 ! i = Get k r \<and>
         (if int i mod 100 < 60 then k = scan_pos st1 i
          else if int i mod 100 < 60 + 30 then 0 \<le> k \<and> k < 500
          else 500 \<le> k \<and> k < 2 * 500 \<and> r = None)"
    unfolding e by auto
  have "\<exists>k. gets1 ! 95 = Get k None \<and> 500 \<le> k \<and> k < 1000"
    using k1 [rule_format, of 95] by auto
  moreover have "\<exists>k. gets2 ! 95 = Get k None \<and> 500 \<le> k \<and> k < 1000"
    using k2 [rule_format, of 95] by auto
  ultimately have "\<exists>st st1 st2. main_loopTest spec_policy seed0 = Inr st \<and>
      loop_runTestForCacheType spec_policy ARC st = Inr st1 \<and>
      loop_runTestForCacheType spec_policy ARC st1 = Inr st2 \<and>
      (\<exists>gets. calls st1 = map (\<lambda>k. Put k (''loop'' @ to_string k)) [0..499] @ gets \<and>
         length gets = 100000 \<and> (\<exists>k. gets ! 95 = Get k None \<and> 500 \<le> k \<and> k < 1000)) \<and>
      (\<exists>gets. calls st2 = calls st1 @ map (\<lambda>k. Put k (''loop'' @ to_string k)) [0..499] @ gets \<and>
         length gets = 100000 \<and> (\<exists>k. gets ! 95 = Get k None \<and> 500 \<le> k \<and> k < 1000))"
    using m run1 run2 g1 g2 by blast
  then show ?thesis using no_phantoms_spec_policy small by simp
qed

subsection \<open>The workload-shift test: counters\<close>

lemma shift_more_fields:
  fixes s st :: "'c WorkloadShiftTest"
  assumes "CacheTest.more s = CacheTest.more st"
  shows "initialDataSize s = initialDataSize st" and "phases s = phases st" and "putProbability s = putProbability st"
proof -
  obtain a1 a2 a3 a4 a5 a6 a7 a8 a9 a10 a11 where s: "s = \<lparr>config = a1, lruCache = a2, lfuCache = a3, arcCache = a4,
      hits = a5, operations_map = a6, gen = a7, calls = a8, initialDataSize = a9, phases = a10, putProbability = a11\<rparr>"
    by (cases s) auto
  obtain b1 b2 b3 b4 b5 b6 b7 b8 b9 b10 b11 where st: "st = \<lparr>config = b1, lruCache = b2, lfuCache = b3, arcCache = b4,
      hits = b5, operations_map = b6, gen = b7, calls = b8, initialDataSize = b9, phases = b10, putProbability = b11\<rparr>"
    by (cases st) auto
  show "initialDataSize s = initialDataSize st" and "phases s = phases st" and "putProbability s = putProbability st"
    using assms unfolding s st by simp_all
qed

lemma shift_same_setup:
  fixes s st :: "'c WorkloadShiftTest"
  assumes "same_setup st s"
  shows "initialDataSize s = initialDataSize st" and "phases s = phases st" and "putProbability s = putProbability st"
    and "config s = config st"
  using assms shift_more_fields [of s st] by (simp_all add: same_setup_def)

lemma drew_refl: "drew s s"
  unfolding drew_def by (rule exI [of _ "gen s"]) simp

lemma drew_draw: "drew s s1 \<Longrightarrow> drew s (snd (draw s1))"
  unfolding drew_def by (auto simp add: snd_draw)

lemma drew_fields:
  assumes "drew s s1"
  shows "config s1 = config s" and "calls s1 = calls s" and "hits s1 = hits s"
    and "operations_map s1 = operations_map s" and "CacheTest.more s1 = CacheTest.more s"
    and "getCache t s1 = getCache t s" and "new_calls base s1 = new_calls base s"
  using assms by (auto simp add: drew_def new_calls_def)

lemma run_inv_drew: "run_inv P t st s \<Longrightarrow> drew s s1 \<Longrightarrow> run_inv P t st s1"
  unfolding run_inv_def stats_inv_def same_setup_def
  using drew_fields [of s s1] by simp

lemma shiftMixedKey_drew: "shiftMixedKey s = Inr (key, s1) \<Longrightarrow> drew s s1"
  by (auto simp add: shiftMixedKey_def Let_def bindE_eq_Inr drew_draw drew_refl split: if_splits)

lemma shiftKey_drew: "shiftKey pl phase op s = Inr (key, s1) \<Longrightarrow> drew s s1"
  by (auto simp add: shiftKey_def bindE_eq_Inr drew_draw drew_refl shiftMixedKey_drew split: if_splits)

lemma shift_fill_body_Inr:
  assumes "shift_fill_body P t key s = Inr s'"
  shows "s' = doPut P t key (''init'' @ to_string key) s"
  using assms by (auto simp add: shift_fill_body_def Let_def bindE_eq_Inr split: if_splits)

lemma shift_access_body_Inr:
  assumes "shift_access_body P t pl op s = Inr s'"
  shows "\<exists>phase key s1 s2. int_div op pl = Inr phase \<and> shiftKey pl phase op s = Inr (key, s1) \<and>
     doGet P t key s1 = Inr s2 \<and>
     (s' = snd (draw s2) \<or> s' = doPut P t key (''new'' @ to_string key) (snd (draw s2)))"
  using assms by (auto simp add: shift_access_body_def Let_def bindE_eq_Inr split: if_splits)

lemma shift_fill_step:
  assumes b: "shift_fill_body P t j s = Inr s'" and inv: "run_inv P t st s"
  shows "run_inv P t st s' \<and>
    (\<exists>c. new_calls (calls st) s' = new_calls (calls st) s @ [c] \<and> c = Put j (''init'' @ to_string j))"
proof -
  have s': "s' = doPut P t j (''init'' @ to_string j) s" using b by (rule shift_fill_body_Inr)
  have si: "stats_inv t (calls st) s" using inv by (simp add: run_inv_def)
  show ?thesis unfolding s' using run_inv_doPut [OF inv] stats_inv_doPut(2) [OF si] by simp
qed

lemma shift_access_step:
  assumes b: "shift_access_body P t pl j s = Inr s'" and inv: "run_inv P t st s"
  shows "run_inv P t st s'"
    and "\<exists>c rest. new_calls (calls st) s' = new_calls (calls st) s @ c # rest \<and> is_get c \<and> filter is_get rest = []"
    and "access_step P t s s'"
proof -
  from shift_access_body_Inr [OF b] obtain phase key s1 s2 where
    k: "shiftKey pl phase j s = Inr (key, s1)" and g: "doGet P t key s1 = Inr s2"
    and s': "s' = snd (draw s2) \<or> s' = doPut P t key (''new'' @ to_string key) (snd (draw s2))"
    by blast
  have d: "drew s s1" using k by (rule shiftKey_drew)
  note f = drew_fields [OF d]
  have inv1: "run_inv P t st s1" using inv d by (rule run_inv_drew)
  have inv2: "run_inv P t st s2" using inv1 g by (rule run_inv_doGet)
  have inv3: "run_inv P t st (snd (draw s2))" using inv2 by (rule run_inv_draw)
  have si1: "stats_inv t (calls st) s1" using inv1 by (simp add: run_inv_def)
  have si3: "stats_inv t (calls st) (snd (draw s2))" using inv3 by (simp add: run_inv_def)
  let ?c = "Get key (fst (cache_get P key (getCache t s)))"
  have n2: "new_calls (calls st) s2 = new_calls (calls st) s @ [?c]"
    using stats_inv_doGet(2) [OF si1 g] f(6,7) by simp
  note g2 = doGet_Inr [OF g]
  show "run_inv P t st s'" using s' inv3 run_inv_doPut [OF inv3] by auto
  from s' show "\<exists>c rest. new_calls (calls st) s' = new_calls (calls st) s @ c # rest \<and> is_get c \<and> filter is_get rest = []"
  proof
    assume "s' = snd (draw s2)"
    then have "new_calls (calls st) s' = new_calls (calls st) s @ ?c # []" using n2 by simp
    then show ?thesis by (intro exI [of _ ?c] exI [of _ "[]"]) simp
  next
    assume e: "s' = doPut P t key (''new'' @ to_string key) (snd (draw s2))"
    have "new_calls (calls st) s' = new_calls (calls st) s @ ?c # [Put key (''new'' @ to_string key)]"
      unfolding e using stats_inv_doPut(2) [OF si3] n2 by simp
    then show ?thesis by (intro exI [of _ ?c] exI [of _ "[Put key (''new'' @ to_string key)]"]) simp
  qed
  have c2: "calls s2 = calls s @ [?c]" using g2(4) f(2,6) by simp
  have cnt: "counter (operations_map s2) t = counter (operations_map s) t + 1"
    "counter (hits s2) t = counter (hits s) t + (if fst (cache_get P key (getCache t s)) \<noteq> None then 1 else 0)"
    using g2(6,7) f(3,4,6) by (simp_all add: counter_def)
  from s' show "access_step P t s s'"
  proof
    assume "s' = snd (draw s2)"
    then show ?thesis unfolding access_step_def using c2 cnt
      by (intro exI [of _ key] exI [of _ "[]"]) simp
  next
    assume e: "s' = doPut P t key (''new'' @ to_string key) (snd (draw s2))"
    show ?thesis unfolding access_step_def e using c2 cnt
      by (intro exI [of _ key] exI [of _ "[Put key (''new'' @ to_string key)]"]) simp
  qed
qed

lemma shift_run_stats:
  assumes run: "shift_runTestForCacheType P t st = Inr st'"
  shows "run_inv P t st st' \<and>
    length (filter is_get (new_calls (calls st) st')) = nat (operations (config st))"
proof -
  let ?n = "operations (config st)"
  from run obtain s1 pl where l1: "for_loop 0 (initialDataSize st) (shift_fill_body P t) (resetStats t st) = Inr s1"
    and l2: "for_loop 0 (operations (config s1)) (shift_access_body P t pl) s1 = Inr st'"
    by (auto simp add: shift_runTestForCacheType_def bindE_eq_Inr)
  have p1: "run_inv P t st s1 \<and>
    (\<exists>cs. new_calls (calls st) s1 = new_calls (calls st) (resetStats t st) @ cs \<and> length cs = nat (initialDataSize st) \<and>
       (\<forall>i<nat (initialDataSize st). cs ! i = Put (int i) (''init'' @ to_string (int i))))"
  proof (rule phase_loop [where f = "\<lambda>s. s" and Q = "\<lambda>j c. c = Put j (''init'' @ to_string j)", OF l1])
    show "run_inv P t st (resetStats t st)" by (rule run_inv_reset)
  next
    fix j s s'
    assume "0 \<le> j" "j < initialDataSize st" "run_inv P t st s" "shift_fill_body P t j s = Inr s'"
    then show "run_inv P t st s' \<and>
       (\<exists>c. new_calls (calls st) s' = new_calls (calls st) s @ [c] \<and> c = Put j (''init'' @ to_string j))"
      using shift_fill_step [of P t j s s' st] by blast
  qed
  then obtain fills where inv1: "run_inv P t st s1" and fills: "new_calls (calls st) s1 = fills"
    "length fills = nat (initialDataSize st)" "\<forall>i<nat (initialDataSize st). fills ! i = Put (int i) (''init'' @ to_string (int i))"
    by auto
  have "\<forall>c\<in>set fills. \<not> is_get c"
    using fills(2,3) by (metis in_set_conv_nth is_get.simps(2))
  then have g1: "filter is_get (new_calls (calls st) s1) = []" using fills(1) by simp
  have n1: "operations (config s1) = ?n" using run_inv_same [OF inv1] by (simp add: same_setup_def)
  define I where "I j s \<longleftrightarrow> 0 \<le> j \<and> run_inv P t st s \<and> length (filter is_get (new_calls (calls st) s)) = nat j"
    for j and s :: "'a WorkloadShiftTest"
  have "I (max 0 ?n) st'"
  proof (rule for_loop_invariant [OF l2 [unfolded n1]])
    show "I 0 s1" using inv1 g1 by (simp add: I_def)
  next
    fix j s s'
    assume j: "0 \<le> j" "j < ?n" and I: "I j s" and b: "shift_access_body P t pl j s = Inr s'"
    have inv: "run_inv P t st s" using I by (simp add: I_def)
    from shift_access_step(2) [OF b inv] obtain c rest where
      "new_calls (calls st) s' = new_calls (calls st) s @ c # rest" "is_get c" "filter is_get rest = []"
      by blast
    then have "length (filter is_get (new_calls (calls st) s')) = Suc (length (filter is_get (new_calls (calls st) s)))"
      by simp
    then show "I (j + 1) s'" using I shift_access_step(1) [OF b inv] j(1) by (simp add: I_def nat_add_distrib)
  qed
  then show ?thesis by (simp add: I_def)
qed

lemma hot_run_stats:
  assumes run: "hot_runTestForCacheType P t st = Inr st'"
  shows "run_inv P t st st' \<and>
    length (filter is_get (new_calls (calls st) st')) = nat (operations (config st))"
proof -
  from hot_run_log [OF run] obtain puts gets where inv: "run_inv P t st st'"
    and n: "new_calls (calls st) st' = puts @ gets"
    and l: "length puts = nat (operations (config st))" "length gets = nat (operations (config st))"
    and p: "\<forall>i<nat (operations (config st)). hot_put_call st (int i) (puts ! i)"
    and g: "\<forall>i<nat (operations (config st)). hot_get_call st (int i) (gets ! i)"
    by blast
  have "\<forall>c\<in>set puts. \<not> is_get c" using p l(1) hot_put_call_not_get by (metis in_set_conv_nth)
  then have "filter is_get puts = []" by simp
  moreover have "\<forall>c\<in>set gets. is_get c" using g l(2) hot_get_call_is_get by (metis in_set_conv_nth)
  then have "filter is_get gets = gets" by simp
  ultimately show ?thesis using inv n l(2) by simp
qed

lemma loop_run_stats:
  assumes run: "loop_runTestForCacheType P t st = Inr st'"
  shows "run_inv P t st st' \<and>
    length (filter is_get (new_calls (calls st) st')) = nat (operations (config st))"
proof -
  from loop_run_log [OF run] obtain gets where inv: "run_inv P t st st'"
    and n: "new_calls (calls st) st' = map (\<lambda>k. Put k (''loop'' @ to_string k)) [0..loopSize st - 1] @ gets"
    and l: "length gets = nat (operations (config st))"
    and g: "\<forall>i<nat (operations (config st)). loop_get_call st (int i) (gets ! i)"
    by blast
  have "\<forall>c\<in>set gets. is_get c" using g l loop_get_call_is_get by (metis in_set_conv_nth)
  then have "filter is_get gets = gets" by simp
  moreover have "filter is_get (map (\<lambda>k. Put k (''loop'' @ to_string k)) [0..loopSize st - 1]) = []"
    by (simp add: filter_empty_conv)
  ultimately show ?thesis using inv n l by simp
qed

lemma hot_get_body_access:
  assumes "hot_get_body P t j s = Inr s'"
  shows "access_step P t s s'"
proof -
  from hot_get_body_Inr [OF assms] obtain k where g: "doGet P t k (snd (draw s)) = Inr s'" by blast
  show ?thesis using doGet_access_step [OF g] by (simp add: access_step_def)
qed

lemma loop_access_body_access:
  assumes b: "loop_access_body P t j cs = Inr cs'"
  shows "access_step P t (snd cs) (snd cs')"
proof -
  obtain pos s where cs: "cs = (pos, s)" by (cases cs)
  from b obtain key pos' s1 s2 where k: "loopKey j (pos, s) = Inr (key, pos', s1)"
    and g: "doGet P t key s1 = Inr s2" and cs': "cs' = (pos', s2)"
    unfolding cs by (auto simp add: loop_access_body_def bindE_eq_Inr)
  have s1: "s1 = s \<or> s1 = snd (draw s)" using loopKey_Inr(1) [OF k] .
  then have c1: "getCache t s1 = getCache t s"
    and o1: "operations_map s1 = operations_map s" "hits s1 = hits s" "calls s1 = calls s"
    by auto
  show ?thesis using doGet_access_step [OF g] c1 o1 unfolding cs cs' by (simp add: access_step_def)
qed

lemma shift_access_body_access:
  assumes b: "shift_access_body P t pl j s = Inr s'"
  shows "access_step P t s s'"
proof -
  from shift_access_body_Inr [OF b] obtain phase key s1 s2 where
    k: "shiftKey pl phase j s = Inr (key, s1)" and g: "doGet P t key s1 = Inr s2"
    and s': "s' = snd (draw s2) \<or> s' = doPut P t key (''new'' @ to_string key) (snd (draw s2))"
    by blast
  have d: "drew s s1" using k by (rule shiftKey_drew)
  note f = drew_fields [OF d]
  note g2 = doGet_Inr [OF g]
  let ?c = "Get key (fst (cache_get P key (getCache t s)))"
  have c2: "calls s2 = calls s @ [?c]" using g2(4) f(2,6) by simp
  have cnt: "counter (operations_map s2) t = counter (operations_map s) t + 1"
    "counter (hits s2) t = counter (hits s) t + (if fst (cache_get P key (getCache t s)) \<noteq> None then 1 else 0)"
    using g2(6,7) f(3,4,6) by (simp_all add: counter_def)
  from s' show "access_step P t s s'"
  proof
    assume "s' = snd (draw s2)"
    then show ?thesis unfolding access_step_def using c2 cnt
      by (intro exI [of _ key] exI [of _ "[]"]) simp
  next
    assume e: "s' = doPut P t key (''new'' @ to_string key) (snd (draw s2))"
    show ?thesis unfolding access_step_def e using c2 cnt
      by (intro exI [of _ key] exI [of _ "[Put key (''new'' @ to_string key)]"]) simp
  qed
qed

lemma run_stats_counted:
  assumes inv: "run_inv P t st st'"
    and n: "length (filter is_get (new_calls (calls st) st')) = nat (operations (config st))"
  shows "counted t st st'"
proof -
  let ?new = "new_calls (calls st) st'"
  have si: "stats_inv t (calls st) st'" and c: "config st' = config st"
    using inv by (simp_all add: run_inv_def same_setup_def)
  have o: "operations_map st' t = Some (int (length (filter is_get ?new)))"
    and h: "hits st' t = Some (int (length (filter is_hit ?new)))"
    using si by (simp_all add: stats_inv_def)
  have m: "int (length (filter is_get ?new)) = max 0 (operations (config st))" using n by simp
  have "int (length (filter is_hit ?new)) \<le> max 0 (operations (config st))"
    using hits_le_gets [of ?new] m by simp
  then show ?thesis using c o h m by (simp add: counted_def)
qed

lemmas shift_eval = shift_runTestForCacheType_def shift_fill_body_def shift_access_body_def shiftKey_def
  shiftMixedKey_def WorkloadShiftTest_new_def WorkloadShiftTest.fields_def setInitialDataSize_def
  setPhases_def setPutProbability_def clamp_ratio_def

lemma shift_small_run:
  "\<exists>st'. shift_runTestForCacheType spec_policy LRU
       (setOperations 2 (setPhases 1 (setInitialDataSize 2 (WorkloadShiftTest_new spec_policy seed7)))) = Inr st' \<and>
     calls st' = [Put 0 ''init0'', Put 1 ''init1'', Get 2 None, Put 2 ''new2'', Get 2 (Some ''new2''), Put 2 ''new2''] \<and>
     hits st' LRU = Some 1 \<and> operations_map st' LRU = Some 2"
  by (simp add: shift_eval harness_eval arith_eval spec_policy_eval seed7_def)

lemma small_access_steps:
  "(\<exists>s'. hot_get_body spec_policy LRU 0 (HotDataAccessTest_new spec_policy seed7) = Inr s') \<and>
   (\<exists>cs'. loop_access_body spec_policy LRU 0 (0, LoopPatternTest_new spec_policy seed7) = Inr cs') \<and>
   (\<exists>s'. shift_access_body spec_policy LRU 10000 0 (WorkloadShiftTest_new spec_policy seed7) = Inr s')"
  by (simp add: shift_eval loop_eval hot_eval harness_eval arith_eval spec_policy_eval seed7_def)

lemma negative_operations_run:
  "\<exists>st'. hot_runTestForCacheType spec_policy LRU (setOperations (- 1) (HotDataAccessTest_new spec_policy seed0)) = Inr st' \<and>
     operations (config st') = - 1 \<and> operations_map st' LRU = Some 0 \<and> hits st' LRU = Some 0 \<and> calls st' = []"
  by (simp add: hot_eval harness_eval arith_eval spec_policy_eval seed0_def)

text \<open>
  Claim C3, as stated, fails: \<^verbatim>\<open>setOperations\<close> stores any \<^verbatim>\<open>int\<close>, and with
  \<^verbatim>\<open>config.operations = -1\<close> a run executes no access, so it returns with
  \<^verbatim>\<open>operations[type] = 0\<close>, not \<open>-1\<close>.
\<close>

theorem operations_counter_differs_from_config:
  "\<exists>st'. hot_runTestForCacheType spec_policy LRU
       (setOperations (- 1) (HotDataAccessTest_new spec_policy seed0)) = Inr st' \<and>
     operations_map st' LRU = Some 0 \<and> operations (config st') = - 1 \<and>
     counter (operations_map st') LRU \<noteq> operations (config st')"
  using negative_operations_run by (auto simp add: counter_def)

text \<open>
  Claim C3, amended: in each of the three test classes an iteration of the access loop
  issues exactly one \<^verbatim>\<open>get\<close>, adds one to \<^verbatim>\<open>operations[type]\<close>, and adds one to
  \<^verbatim>\<open>hits[type]\<close> if and only if that \<^verbatim>\<open>get\<close> returned \<^verbatim>\<open>true\<close>.  After a
  \<^verbatim>\<open>runTestForCacheType\<close> that returns, \<^verbatim>\<open>operations[type]\<close> is \<^verbatim>\<open>config.operations\<close>
  when that number is not negative and 0 otherwise, it is the number of gets of the run,
  \<^verbatim>\<open>hits[type]\<close> is the number of those gets that returned \<^verbatim>\<open>true\<close>, and
  \<open>0 \<le> hits[type] \<le> operations[type]\<close>.
\<close>

theorem run_counts_operations_and_hits:
  "(hot_get_body P t j hs = Inr hs' \<longrightarrow> access_step P t hs hs') \<and>
   (loop_access_body P t j lcs = Inr lcs' \<longrightarrow> access_step P t (snd lcs) (snd lcs')) \<and>
   (shift_access_body P t pl j ws = Inr ws' \<longrightarrow> access_step P t ws ws') \<and>
   (hot_runTestForCacheType P t hst = Inr hst' \<longrightarrow> counted t hst hst') \<and>
   (loop_runTestForCacheType P t lst = Inr lst' \<longrightarrow> counted t lst lst') \<and>
   (shift_runTestForCacheType P t wst = Inr wst' \<longrightarrow> counted t wst wst')"
proof (intro conjI impI)
  assume "hot_get_body P t j hs = Inr hs'"
  then show "access_step P t hs hs'" by (rule hot_get_body_access)
next
  assume "loop_access_body P t j lcs = Inr lcs'"
  then show "access_step P t (snd lcs) (snd lcs')" by (rule loop_access_body_access)
next
  assume "shift_access_body P t pl j ws = Inr ws'"
  then show "access_step P t ws ws'" by (rule shift_access_body_access)
next
  assume "hot_runTestForCacheType P t hst = Inr hst'"
  from hot_run_stats [OF this] show "counted t hst hst'" by (auto intro: run_stats_counted)
next
  assume "loop_runTestForCacheType P t lst = Inr lst'"
  from loop_run_stats [OF this] show "counted t lst lst'" by (auto intro: run_stats_counted)
next
  assume "shift_runTestForCacheType P t wst = Inr wst'"
  from shift_run_stats [OF this] show "counted t wst wst'" by (auto intro: run_stats_counted)
qed

theorem run_counts_operations_and_hits_witness:
  "(\<exists>s'. hot_get_body spec_policy LRU 0 (HotDataAccessTest_new spec_policy seed7) = Inr s' \<and>
      access_step spec_policy LRU (HotDataAccessTest_new spec_policy seed7) s') \<and>
   (\<exists>cs'. loop_access_body spec_policy LRU 0 (0, LoopPatternTest_new spec_policy seed7) = Inr cs' \<and>
      access_step spec_policy LRU (LoopPatternTest_new spec_policy seed7) (snd cs')) \<and>
   (\<exists>s'. shift_access_body spec_policy LRU 10000 0 (WorkloadShiftTest_new spec_policy seed7) = Inr s' \<and>
      access_step spec_policy LRU (WorkloadShiftTest_new spec_policy seed7) s') \<and>
   (\<exists>st'. hot_runTestForCacheType spec_policy LRU (setOperations 2 (HotDataAccessTest_new spec_policy seed7)) = Inr st' \<and>
      counted LRU (setOperations 2 (HotDataAccessTest_new spec_policy seed7)) st' \<and>
      operations_map st' LRU = Some 2 \<and> hits st' LRU = Some 2) \<and>
   (\<exists>s1 s2 st'. setSequentialRatio 1 (LoopPatternTest_new spec_policy seed0) = Inr s1 \<and>
      setRandomRatio 1 s1 = Inr s2 \<and>
      loop_runTestForCacheType spec_policy ARC (setOperations 3 (setLoopSize 3 s2)) = Inr st' \<and>
      counted ARC (setOperations 3 (setLoopSize 3 s2)) st' \<and>
      operations_map st' ARC = Some 3 \<and> hits st' ARC = Some 2) \<and>
   (\<exists>st'. shift_runTestForCacheType spec_policy LRU
        (setOperations 2 (setPhases 1 (setInitialDataSize 2 (WorkloadShiftTest_new spec_policy seed7)))) = Inr st' \<and>
      counted LRU (setOperations 2 (setPhases 1 (setInitialDataSize 2 (WorkloadShiftTest_new spec_policy seed7)))) st' \<and>
      operations_map st' LRU = Some 2 \<and> hits st' LRU = Some 1)"
proof -
  from small_access_steps obtain hs' lcs' ws' where
    b: "hot_get_body spec_policy LRU 0 (HotDataAccessTest_new spec_policy seed7) = Inr hs'"
      "loop_access_body spec_policy LRU 0 (0, LoopPatternTest_new spec_policy seed7) = Inr lcs'"
      "shift_access_body spec_policy LRU 10000 0 (WorkloadShiftTest_new spec_policy seed7) = Inr ws'"
    by blast
  from hot_small_run obtain hst' where
    h: "hot_runTestForCacheType spec_policy LRU (setOperations 2 (HotDataAccessTest_new spec_policy seed7)) = Inr hst'"
      "operations_map hst' LRU = Some 2" "hits hst' LRU = Some 2"
    by blast
  from loop_small_run obtain s1 s2 lst' where
    l: "setSequentialRatio 1 (LoopPatternTest_new spec_policy seed0) = Inr s1" "setRandomRatio 1 s1 = Inr s2"
      "loop_runTestForCacheType spec_policy ARC (setOperations 3 (setLoopSize 3 s2)) = Inr lst'"
      "operations_map lst' ARC = Some 3" "hits lst' ARC = Some 2"
    by blast
  from shift_small_run obtain wst' where
    w: "shift_runTestForCacheType spec_policy LRU
        (setOperations 2 (setPhases 1 (setInitialDataSize 2 (WorkloadShiftTest_new spec_policy seed7)))) = Inr wst'"
      "operations_map wst' LRU = Some 2" "hits wst' LRU = Some 1"
    by blast
  note a = run_counts_operations_and_hits [of spec_policy LRU 0 "HotDataAccessTest_new spec_policy seed7" hs'
    "(0, LoopPatternTest_new spec_policy seed7)" lcs' 10000 "WorkloadShiftTest_new spec_policy seed7" ws'
    "setOperations 2 (HotDataAccessTest_new spec_policy seed7)" hst'
    "setOperations 3 (setLoopSize 3 s2)" "lst'"
    "setOperations 2 (setPhases 1 (setInitialDataSize 2 (WorkloadShiftTest_new spec_policy seed7)))" wst']
  note c = run_counts_operations_and_hits [of spec_policy ARC _ _ _ _ _ _ _ _ _ _ "setOperations 3 (setLoopSize 3 s2)" "lst'"]
  have 1: "access_step spec_policy LRU (HotDataAccessTest_new spec_policy seed7) hs'" using a b(1) by blast
  have 2: "access_step spec_policy LRU (LoopPatternTest_new spec_policy seed7) (snd lcs')" using a b(2) by simp
  have 3: "access_step spec_policy LRU (WorkloadShiftTest_new spec_policy seed7) ws'" using a b(3) by blast
  have 4: "counted LRU (setOperations 2 (HotDataAccessTest_new spec_policy seed7)) hst'" using a h(1) by blast
  have 5: "counted ARC (setOperations 3 (setLoopSize 3 s2)) lst'" using c l(3) by blast
  have 6: "counted LRU (setOperations 2 (setPhases 1 (setInitialDataSize 2 (WorkloadShiftTest_new spec_policy seed7)))) wst'"
    using a w(1) by blast
  show ?thesis using b h l w 1 2 3 4 5 6 by blast
qed

subsection \<open>The workload-shift test: divisions\<close>

lemma abs_sdiv_le: "\<bar>(a::int) sdiv b\<bar> \<le> \<bar>a\<bar>"
  using sdiv_int_range [of a b] by auto

lemma abs_sdiv_in_int: "\<bar>a\<bar> \<le> 2147483647 \<Longrightarrow> in_int (a sdiv b)"
  using abs_sdiv_le [of a b] unfolding in_int_simps by linarith

lemma int_mod_total_abs: "b \<noteq> 0 \<Longrightarrow> \<bar>a\<bar> \<le> 2147483647 \<Longrightarrow> int_mod a b = Inr (a smod b)"
  by (simp add: int_mod_def abs_sdiv_in_int)

lemma sdiv_mult_bounds:
  assumes "0 \<le> (a::int)" and "b \<noteq> 0"
  shows "0 \<le> (a sdiv b) * b" and "(a sdiv b) * b \<le> a"
proof -
  have e: "(a sdiv b) * b = (a div \<bar>b\<bar>) * \<bar>b\<bar>"
  proof (cases "a = 0")
    case True
    then show ?thesis by (simp add: signed_divide_int_def)
  next
    case False
    then have "sgn a = 1" using assms(1) by simp
    then have "(a sdiv b) * b = (a div \<bar>b\<bar>) * (sgn b * b)"
      using assms(1) by (simp add: signed_divide_int_def)
    then show ?thesis by (simp add: abs_sgn mult.commute)
  qed
  have p: "0 < \<bar>b\<bar>" using assms(2) by simp
  show "0 \<le> (a sdiv b) * b" unfolding e using assms(1) p by (simp add: pos_imp_zdiv_nonneg_iff)
  have "(a div \<bar>b\<bar>) * \<bar>b\<bar> \<le> a"
    using assms(1) p by (metis mult.commute div_mult_mod_eq add_increasing2 pos_mod_sign order_refl)
  then show "(a sdiv b) * b \<le> a" unfolding e .
qed

lemma sdiv_eq_0_iff:
  assumes "0 < (a::int)" and "b \<noteq> 0"
  shows "a sdiv b = 0 \<longleftrightarrow> a < \<bar>b\<bar>"
proof -
  have "a sdiv b = sgn b * (a div \<bar>b\<bar>)" using assms(1) by (simp add: signed_divide_int_def)
  then have "a sdiv b = 0 \<longleftrightarrow> a div \<bar>b\<bar> = 0" using assms(2) by (simp add: sgn_if)
  also have "\<dots> \<longleftrightarrow> a < \<bar>b\<bar>"
  proof
    assume "a div \<bar>b\<bar> = 0"
    then have "a = a mod \<bar>b\<bar>" using div_mult_mod_eq [of a "\<bar>b\<bar>"] by simp
    moreover have "a mod \<bar>b\<bar> < \<bar>b\<bar>" using assms(2) by (intro pos_mod_bound) simp
    ultimately show "a < \<bar>b\<bar>" by simp
  next
    assume "a < \<bar>b\<bar>"
    then show "a div \<bar>b\<bar> = 0" using assms(1) by (simp add: div_pos_pos_trivial)
  qed
  finally show ?thesis .
qed

lemma sdiv_in_int_iff:
  assumes "in_int a" and "b \<noteq> 0"
  shows "in_int (a sdiv b) \<longleftrightarrow> \<not> (a = - 2147483648 \<and> b = - 1)"
proof (cases "a = - 2147483648")
  case False
  then have "\<bar>a\<bar> \<le> 2147483647" using assms(1) unfolding in_int_simps by linarith
  then have "in_int (a sdiv b)" by (rule abs_sdiv_in_int)
  then show ?thesis using False by simp
next
  case True
  consider "b = - 1" | "b = 1" | "2 \<le> \<bar>b\<bar>" using assms(2) by linarith
  then show ?thesis
  proof cases
    case 1
    then show ?thesis using True by (simp add: signed_divide_int_def in_int_simps)
  next
    case 2
    then show ?thesis using True by (simp add: signed_divide_int_def in_int_simps)
  next
    case 3
    have s: "a sdiv b = - (sgn b * (2147483648 div \<bar>b\<bar>))" using True by (simp add: signed_divide_int_def)
    have "\<bar>a sdiv b\<bar> = \<bar>2147483648 div \<bar>b\<bar>\<bar>" unfolding s using assms(2) by (simp add: abs_mult sgn_if)
    moreover have "0 \<le> 2147483648 div \<bar>b\<bar> " using 3 by (simp add: pos_imp_zdiv_nonneg_iff)
    moreover have "2147483648 div \<bar>b\<bar> \<le> 2147483648 div 2" using 3 by (intro zdiv_mono2) simp_all
    ultimately have "\<bar>a sdiv b\<bar> \<le> 1073741824" by simp
    then have "in_int (a sdiv b)" unfolding in_int_simps by linarith
    then show ?thesis using 3 by auto
  qed
qed

lemma shift_draw_fields [simp]:
  fixes s :: "'c WorkloadShiftTest"
  shows "initialDataSize (snd (draw s)) = initialDataSize s"
    and "phases (snd (draw s)) = phases s"
    and "putProbability (snd (draw s)) = putProbability s"
  using shift_more_fields [of "snd (draw s)" s] by simp_all

lemma shiftMixedKey_total:
  assumes "100 < initialDataSize s" and "in_int (initialDataSize s)"
  shows "\<exists>key s1. shiftMixedKey s = Inr (key, s1)"
proof -
  have d: "int_sub (initialDataSize s) 100 = Inr (initialDataSize s - 100)"
    using assms by (simp add: int_sub_def checked_def in_int_simps)
  have "0 < initialDataSize s - 100" "in_int (initialDataSize s - 100)"
    using assms by (simp_all add: in_int_simps)
  then have u: "urem g (initialDataSize s - 100) = Inr (g mod (initialDataSize s - 100))" for g
    by (rule urem_pos)
  have v: "urem g 100 = Inr (g mod 100)" "urem g 5 = Inr (g mod 5)" "urem g 95 = Inr (g mod 95)" for g
    by (simp_all add: urem_pos in_int_simps)
  show ?thesis by (simp add: shiftMixedKey_def Let_def d u v)
qed

lemma shiftKey_total:
  assumes op: "0 \<le> op" "in_int op" and pl: "pl \<noteq> 0"
    and ids: "100 < initialDataSize s" "in_int (initialDataSize s)"
  shows "\<exists>key s1. shiftKey pl (op sdiv pl) op s = Inr (key, s1)"
proof -
  define phase where "phase = op sdiv pl"
  have a: "\<bar>phase\<bar> \<le> 2147483647"
    using abs_sdiv_le [of op pl] op unfolding phase_def in_int_simps by linarith
  have m: "int_mod phase 5 = Inr (phase smod 5)" using a by (intro int_mod_total_abs) simp_all
  note b = sdiv_mult_bounds [OF op(1) pl]
  have mul: "int_mul phase pl = Inr (phase * pl)"
    using b op unfolding phase_def by (simp add: int_mul_def checked_def in_int_simps)
  have sub: "int_sub op (phase * pl) = Inr (op - phase * pl)"
    using b op unfolding phase_def by (simp add: int_sub_def checked_def in_int_simps)
  have "in_int (op - phase * pl)" using b op unfolding phase_def by (simp add: in_int_simps)
  then have off: "int_mod (op - phase * pl) 100 = Inr ((op - phase * pl) smod 100)"
    using b unfolding phase_def by (intro int_mod_total) simp_all
  have q: "int_div op 1000 = Inr (op div 1000)" using op by (intro int_div_pos) simp_all
  have "op div 1000 \<le> op div 1" using op(1) by (intro zdiv_mono2) simp_all
  then have q0: "0 \<le> op div 1000" "op div 1000 \<le> op" using op(1) by (simp_all add: pos_imp_zdiv_nonneg_iff)
  then have "in_int (op div 1000)" using op unfolding in_int_simps by linarith
  then have l: "int_mod (op div 1000) 10 = Inr (op div 1000 mod 10)" using q0 by (intro int_mod_pos) simp_all
  define loc where "loc = op div 1000 mod 10"
  have "0 \<le> loc" "loc < 10" by (simp_all add: loc_def)
  then have "in_int (loc * 20)" unfolding in_int_simps by linarith
  then have base: "int_mul (op div 1000 mod 10) 20 = Inr (op div 1000 mod 10 * 20)"
    unfolding loc_def by (simp add: int_mul_def checked_def)
  have v: "urem g 5 = Inr (g mod 5)" "urem g 20 = Inr (g mod 20)" for g
    by (simp_all add: urem_pos in_int_simps)
  have u: "urem g (initialDataSize s) = Inr (g mod initialDataSize s)" for g
    using ids by (intro urem_pos) simp_all
  from shiftMixedKey_total [OF ids] obtain key s1 where mx: "shiftMixedKey s = Inr (key, s1)" by blast
  show ?thesis unfolding phase_def [symmetric]
    by (simp add: shiftKey_def m mul sub off q l base v u mx)
qed

lemma shift_fill_body_total:
  assumes pre: "shift_total_pre st" and same: "same_setup st s" and j: "0 \<le> j" "j < initialDataSize st"
  shows "\<exists>s'. shift_fill_body P t j s = Inr s'"
proof -
  have pr: "showProgressBar (config st) \<longrightarrow> progressInterval (config st) \<noteq> 0"
    and li: "in_int (initialDataSize st)" "100 < initialDataSize st"
    using pre by (simp_all add: shift_total_pre_def progress_ok_def)
  note e = shift_same_setup [OF same]
  note i = next_index [OF j li(1)]
  have m: "int_mod j 100 = Inr (j smod 100)" using j i(4) by (intro int_mod_total) simp_all
  have sb: "int_sub (initialDataSize st) 1 = Inr (initialDataSize st - 1)"
    using li by (simp add: int_sub_def checked_def in_int_simps)
  let ?s1 = "doPut P t j (''init'' @ to_string j) s"
  have ls: "initialDataSize ?s1 = initialDataSize st" "config ?s1 = config st"
    using e shift_more_fields [of ?s1 s] by simp_all
  have sp: "showProgress ?s1 (j + 1) (initialDataSize ?s1) = Inr ()"
    using pr i ls by (intro showProgress_total) simp_all
  define b where "b \<longleftrightarrow> j smod 100 = 0 \<or> j = initialDataSize st - 1"
  have t: "bindE (if j smod 100 = 0 then Inr True else bindE (int_sub (initialDataSize ?s1) 1) (\<lambda>l. Inr (j = l))) f = f b"
    for f :: "bool \<Rightarrow> error + 'a WorkloadShiftTest"
    using sb ls(1) by (simp add: b_def)
  have "shift_fill_body P t j s = (if b then Inr ?s1 else Inr ?s1)"
    unfolding shift_fill_body_def Let_def m bindE_Inr t i(1) sp by simp
  then show ?thesis by simp
qed

lemma shift_access_body_total:
  assumes pre: "shift_total_pre st" and inv: "run_inv P t st s"
    and j: "0 \<le> j" "j < operations (config st)" and pl: "pl \<noteq> 0"
    and cnt: "length (filter is_get (new_calls (calls st) s)) \<le> nat j"
  shows "\<exists>s'. shift_access_body P t pl j s = Inr s'"
proof -
  have n: "in_int (operations (config st))" and pr: "showProgressBar (config st) \<longrightarrow> progressInterval (config st) \<noteq> 0"
    and ids: "100 < initialDataSize st" "in_int (initialDataSize st)"
    using pre by (simp_all add: shift_total_pre_def progress_ok_def)
  have same: "same_setup st s" using inv by (rule run_inv_same)
  note e = shift_same_setup [OF same]
  note i = next_index [OF j n]
  have dv: "int_div j pl = Inr (j sdiv pl)" using pl j(1) i(4) by (intro int_div_total)
  have md: "int_mod j pl = Inr (j smod pl)" using pl j(1) i(4) by (intro int_mod_total)
  have ids': "100 < initialDataSize s" "in_int (initialDataSize s)" using ids e by simp_all
  from shiftKey_total [OF j(1) i(4) pl ids'] obtain key s1
    where k: "shiftKey pl (j sdiv pl) j s = Inr (key, s1)" by blast
  have d: "drew s s1" using k by (rule shiftKey_drew)
  note f = drew_fields [OF d]
  have inv1: "run_inv P t st s1" using inv d by (rule run_inv_drew)
  have si: "stats_inv t (calls st) s1" using inv1 by (simp add: run_inv_def)
  have "int (length (filter is_get (new_calls (calls st) s1))) < 2147483647"
    using cnt j n f(7) [of "calls st"] by (simp add: in_int_simps)
  from doGet_total_inv [OF si this] obtain s2 where s2: "doGet P t key s1 = Inr s2" by blast
  have c2: "config s2 = config st" using doGet_Inr(1) [OF s2] f(1) e by simp
  have u: "urem (fst (draw s2)) 100 = Inr (fst (draw s2) mod 100)" by (simp add: urem_pos in_int_simps)
  have sp: "showProgress x (j + 1) n' = Inr ()" if "config x = config st"
    for x :: "'a WorkloadShiftTest" and n'
    using pr i that by (intro showProgress_total) simp_all
  show ?thesis using dv md k s2 u i(1) c2
    by (simp add: shift_access_body_def Let_def sp)
qed

lemma shift_fill_total:
  assumes pre: "shift_total_pre st"
  shows "\<exists>s1. for_loop 0 (initialDataSize st) (shift_fill_body P t) (resetStats t st) = Inr s1 \<and>
      run_inv P t st s1 \<and> filter is_get (new_calls (calls st) s1) = []"
proof -
  have "\<exists>s1. for_loop 0 (initialDataSize st) (shift_fill_body P t) (resetStats t st) = Inr s1 \<and>
      (run_inv P t st s1 \<and> filter is_get (new_calls (calls st) s1) = [])"
  proof (rule for_loop_total [where I = "\<lambda>j s. run_inv P t st s \<and> filter is_get (new_calls (calls st) s) = []"])
    show "run_inv P t st (resetStats t st) \<and> filter is_get (new_calls (calls st) (resetStats t st)) = []"
      by (simp add: run_inv_reset)
    show "0 \<le> initialDataSize st" using pre by (simp add: shift_total_pre_def)
  next
    fix j s
    assume j: "0 \<le> j" "j < initialDataSize st" and I: "run_inv P t st s \<and> filter is_get (new_calls (calls st) s) = []"
    from shift_fill_body_total [OF pre run_inv_same j] I obtain s' where s': "shift_fill_body P t j s = Inr s'"
      by blast
    have inv: "run_inv P t st s" using I by simp
    from shift_fill_step [OF s' inv] have "run_inv P t st s'"
      "new_calls (calls st) s' = new_calls (calls st) s @ [Put j (''init'' @ to_string j)]" by auto
    then show "\<exists>s'. shift_fill_body P t j s = Inr s' \<and>
        (run_inv P t st s' \<and> filter is_get (new_calls (calls st) s') = [])"
      using s' I by (intro exI [of _ s']) simp
  qed
  then show ?thesis by simp
qed

lemma shift_access_total:
  assumes pre: "shift_total_pre st" and inv1: "run_inv P t st s1"
    and g1: "filter is_get (new_calls (calls st) s1) = []" and pl: "pl \<noteq> 0"
  shows "\<exists>s2. for_loop 0 (operations (config st)) (shift_access_body P t pl) s1 = Inr s2"
proof (cases "0 \<le> operations (config st)")
  case False
  then show ?thesis by (simp add: for_loop_empty)
next
  case True
  let ?n = "operations (config st)"
  have "\<exists>s2. for_loop 0 ?n (shift_access_body P t pl) s1 = Inr s2 \<and>
      (run_inv P t st s2 \<and> length (filter is_get (new_calls (calls st) s2)) \<le> nat ?n)"
  proof (rule for_loop_total [where I = "\<lambda>j s. run_inv P t st s \<and> length (filter is_get (new_calls (calls st) s)) \<le> nat j"])
    show "run_inv P t st s1 \<and> length (filter is_get (new_calls (calls st) s1)) \<le> nat 0"
      using inv1 g1 by simp
    show "0 \<le> ?n" by (rule True)
  next
    fix j s
    assume j: "0 \<le> j" "j < ?n"
      and I: "run_inv P t st s \<and> length (filter is_get (new_calls (calls st) s)) \<le> nat j"
    have inv: "run_inv P t st s" and cnt: "length (filter is_get (new_calls (calls st) s)) \<le> nat j"
      using I by simp_all
    from shift_access_body_total [OF pre inv j pl cnt] obtain s'
      where b: "shift_access_body P t pl j s = Inr s'" by blast
    from shift_access_step(1,2) [OF b inv] obtain c rest where inv': "run_inv P t st s'"
      and c: "new_calls (calls st) s' = new_calls (calls st) s @ c # rest" "is_get c" "filter is_get rest = []"
      by blast
    have "length (filter is_get (new_calls (calls st) s')) \<le> nat (j + 1)"
      using c cnt j(1) by (simp add: nat_add_distrib)
    then show "\<exists>s'. shift_access_body P t pl j s = Inr s' \<and>
        (run_inv P t st s' \<and> length (filter is_get (new_calls (calls st) s')) \<le> nat (j + 1))"
      using b inv' by simp
  qed
  then show ?thesis by blast
qed

lemma shift_run_cases:
  assumes pre: "shift_total_pre st"
  shows "phases st = 0 \<Longrightarrow> shift_runTestForCacheType P t st = Inl DivByZero"
    and "phases st \<noteq> 0 \<Longrightarrow> \<not> in_int (operations (config st) sdiv phases st) \<Longrightarrow>
      shift_runTestForCacheType P t st = Inl IntOverflow"
    and "phases st \<noteq> 0 \<Longrightarrow> 0 < operations (config st) \<Longrightarrow> operations (config st) sdiv phases st = 0 \<Longrightarrow>
      shift_runTestForCacheType P t st = Inl DivByZero"
    and "phases st \<noteq> 0 \<Longrightarrow> in_int (operations (config st) sdiv phases st) \<Longrightarrow>
      operations (config st) \<le> 0 \<or> operations (config st) sdiv phases st \<noteq> 0 \<Longrightarrow>
      \<exists>st'. shift_runTestForCacheType P t st = Inr st'"
proof -
  from shift_fill_total [OF pre] obtain s1 where
    l1: "for_loop 0 (initialDataSize st) (shift_fill_body P t) (resetStats t st) = Inr s1"
    and inv1: "run_inv P t st s1" and g1: "filter is_get (new_calls (calls st) s1) = []"
    by blast
  note e = shift_same_setup [OF run_inv_same [OF inv1]]
  have r: "shift_runTestForCacheType P t st =
    bindE (int_div (operations (config st)) (phases st)) (\<lambda>phaseLength.
       for_loop 0 (operations (config st)) (shift_access_body P t phaseLength) s1)"
    using l1 e by (simp add: shift_runTestForCacheType_def)
  show "shift_runTestForCacheType P t st = Inl DivByZero" if "phases st = 0"
    using that by (simp add: r int_div_def)
  show "shift_runTestForCacheType P t st = Inl IntOverflow"
    if "phases st \<noteq> 0" "\<not> in_int (operations (config st) sdiv phases st)"
    using that by (simp add: r int_div_def checked_def)
  show "shift_runTestForCacheType P t st = Inl DivByZero"
    if p: "phases st \<noteq> 0" and o: "0 < operations (config st)" and z: "operations (config st) sdiv phases st = 0"
  proof -
    have d: "int_div (operations (config st)) (phases st) = Inr 0"
      using p z by (simp add: int_div_def checked_def in_int_simps)
    have "for_loop 0 (operations (config st)) (shift_access_body P t 0) s1 = Inl DivByZero"
    proof (rule for_loop_error [where I = "\<lambda>j s. True"])
      show "0 < operations (config st)" by (rule o)
      fix j s
      show "shift_access_body P t 0 j s = Inl DivByZero"
        by (simp add: shift_access_body_def int_div_def)
    qed simp
    then show ?thesis by (simp add: r d)
  qed
  show "\<exists>st'. shift_runTestForCacheType P t st = Inr st'"
    if p: "phases st \<noteq> 0" and i: "in_int (operations (config st) sdiv phases st)"
      and c: "operations (config st) \<le> 0 \<or> operations (config st) sdiv phases st \<noteq> 0"
  proof -
    have d: "int_div (operations (config st)) (phases st) = Inr (operations (config st) sdiv phases st)"
      using p i by (simp add: int_div_def checked_def)
    show ?thesis
    proof (cases "operations (config st) \<le> 0")
      case True
      then show ?thesis by (simp add: r d for_loop_empty)
    next
      case False
      then have "operations (config st) sdiv phases st \<noteq> 0" using c by simp
      from shift_access_total [OF pre inv1 g1 this] show ?thesis by (simp add: r d)
    qed
  qed
qed

lemma shift_new_fields:
  "config (WorkloadShiftTest_new P g) = TestConfig_new"
  "initialDataSize (WorkloadShiftTest_new P g) = 1000"
  "phases (WorkloadShiftTest_new P g) = 5"
  "putProbability (WorkloadShiftTest_new P g) = 30"
  "calls (WorkloadShiftTest_new P g) = []"
  by (simp_all add: WorkloadShiftTest_new_def CacheTest.extend_def WorkloadShiftTest.fields_def
      CacheTest_new_def)

lemma shift_setters_fields [simp]:
  fixes s :: "'c WorkloadShiftTest"
  shows "config (setPhases n s) = config s" "initialDataSize (setPhases n s) = initialDataSize s"
    "phases (setPhases n s) = n" "putProbability (setPhases n s) = putProbability s"
    "config (setInitialDataSize n s) = config s" "initialDataSize (setInitialDataSize n s) = n"
    "phases (setInitialDataSize n s) = phases s" "putProbability (setInitialDataSize n s) = putProbability s"
    "config (setPutProbability n s) = config s" "initialDataSize (setPutProbability n s) = initialDataSize s"
    "phases (setPutProbability n s) = phases s" "putProbability (setPutProbability n s) = clamp_ratio n"
    "config (setOperations n s) = (config s)\<lparr>operations := n\<rparr>" "initialDataSize (setOperations n s) = initialDataSize s"
    "phases (setOperations n s) = phases s" "putProbability (setOperations n s) = putProbability s"
  by (simp_all add: setPhases_def setInitialDataSize_def setPutProbability_def setOperations_def)

lemma main_workloadTest_Inr:
  "\<exists>st. main_workloadTest P g = Inr st \<and>
     config st = \<lparr>capacity = 4, operations = 50000, showProgressBar = True, progressInterval = 10000\<rparr> \<and>
     initialDataSize st = 1000 \<and> phases st = 5 \<and> putProbability st = 30 \<and> calls st = [] \<and> gen st = g"
  by (simp add: main_workloadTest_def setCapacity_Inr setPhases_def setInitialDataSize_def
      setPutProbability_def setOperations_def clamp_ratio_def WorkloadShiftTest_new_def
      CacheTest_new_def TestConfig_new_def CacheTest.extend_def WorkloadShiftTest.fields_def)

text \<open>
  Claim C9, as stated, fails: the precondition \<open>phases \<ge> 1\<close> and
  \<open>config.operations \<ge> phases\<close> is not necessary for the run to return.  With the
  constructor's 5 phases and \<^verbatim>\<open>setOperations(0)\<close> the phase length is zero, but no
  iteration runs and nothing is divided by it; with \<^verbatim>\<open>setPhases(-1)\<close> and 100000
  operations the phase length is \<open>-100000\<close> and every division is defined.
\<close>

theorem shift_run_returns_outside_precondition:
  "(\<exists>st'. shift_runTestForCacheType spec_policy LRU
        (setOperations 0 (WorkloadShiftTest_new spec_policy seed0)) = Inr st') \<and>
   \<not> (operations (config (setOperations 0 (WorkloadShiftTest_new spec_policy seed0)))
        \<ge> phases (setOperations 0 (WorkloadShiftTest_new spec_policy seed0))) \<and>
   (\<exists>st'. shift_runTestForCacheType spec_policy LRU
        (setPhases (- 1) (WorkloadShiftTest_new spec_policy seed0)) = Inr st') \<and>
   \<not> (phases (setPhases (- 1) (WorkloadShiftTest_new spec_policy seed0)) \<ge> 1)"
proof -
  let ?a = "setOperations 0 (WorkloadShiftTest_new spec_policy seed0)"
  let ?b = "setPhases (- 1) (WorkloadShiftTest_new spec_policy seed0)"
  have "shift_total_pre ?a"
    by (simp add: shift_total_pre_def progress_ok_def shift_new_fields TestConfig_new_def in_int_simps)
  from shift_run_cases(4) [OF this, of spec_policy LRU]
  have a: "\<exists>st'. shift_runTestForCacheType spec_policy LRU ?a = Inr st'"
    by (simp add: shift_new_fields in_int_simps signed_divide_int_def)
  have "shift_total_pre ?b"
    by (simp add: shift_total_pre_def progress_ok_def shift_new_fields TestConfig_new_def in_int_simps)
  from shift_run_cases(4) [OF this, of spec_policy LRU]
  have b: "\<exists>st'. shift_runTestForCacheType spec_policy LRU ?b = Inr st'"
    by (simp add: shift_new_fields TestConfig_new_def in_int_simps signed_divide_int_def)
  show ?thesis using a b by (simp add: shift_new_fields)
qed

text \<open>
  Claim C9, amended: \<^verbatim>\<open>setPhases\<close> stores any \<^verbatim>\<open>int\<close>.  For a test object with more than
  100 initial keys and a progress interval that is not zero while the progress bar is
  shown, \<^verbatim>\<open>runTestForCacheType\<close> divides by zero exactly when \<open>phases = 0\<close> (in
  \<^verbatim>\<open>config.operations / phases\<close>) or \<open>0 < config.operations < |phases|\<close> (the phase length
  is zero and the first iteration divides by it); the division
  \<^verbatim>\<open>config.operations / phases\<close> overflows exactly for \<open>INT_MIN / -1\<close>; in every other
  case the run returns.  In particular it returns under the precondition
  \<open>phases \<ge> 1\<close> and \<open>config.operations \<ge> phases\<close>, and also when
  \<open>config.operations \<le> 0\<close> or when \<open>phases\<close> is negative with
  \<open>|phases| \<le> config.operations\<close>.
\<close>

theorem shift_run_total_iff:
  assumes "shift_total_pre st"
  shows "(shift_runTestForCacheType P t st = Inl DivByZero \<longleftrightarrow>
            phases st = 0 \<or> (0 < operations (config st) \<and> operations (config st) < \<bar>phases st\<bar>)) \<and>
         (shift_runTestForCacheType P t st = Inl IntOverflow \<longleftrightarrow>
            operations (config st) = - 2147483648 \<and> phases st = - 1) \<and>
         ((\<exists>st'. shift_runTestForCacheType P t st = Inr st') \<longleftrightarrow>
            phases st \<noteq> 0 \<and> (operations (config st) \<le> 0 \<or> \<bar>phases st\<bar> \<le> operations (config st)) \<and>
            \<not> (operations (config st) = - 2147483648 \<and> phases st = - 1)) \<and>
         (1 \<le> phases st \<and> phases st \<le> operations (config st) \<longrightarrow>
            (\<exists>st'. shift_runTestForCacheType P t st = Inr st'))"
proof -
  let ?n = "operations (config st)"
  let ?run = "shift_runTestForCacheType P t st"
  note c = shift_run_cases [OF assms, of P t]
  have n: "in_int ?n" using assms by (simp add: shift_total_pre_def progress_ok_def)
  consider (zero) "phases st = 0"
    | (over) "phases st \<noteq> 0" "?n = - 2147483648 \<and> phases st = - 1"
    | (short) "phases st \<noteq> 0" "\<not> (?n = - 2147483648 \<and> phases st = - 1)" "0 < ?n" "?n < \<bar>phases st\<bar>"
    | (ok) "phases st \<noteq> 0" "\<not> (?n = - 2147483648 \<and> phases st = - 1)" "?n \<le> 0 \<or> \<bar>phases st\<bar> \<le> ?n"
    by linarith
  then show ?thesis
  proof cases
    case zero
    then have "?run = Inl DivByZero" by (rule c(1))
    then show ?thesis using zero by simp
  next
    case over
    then have "\<not> in_int (?n sdiv phases st)" using sdiv_in_int_iff [OF n over(1)] by simp
    then have "?run = Inl IntOverflow" using over(1) by (intro c(2))
    then show ?thesis using over by simp
  next
    case short
    have "?n sdiv phases st = 0" using sdiv_eq_0_iff [OF short(3) short(1)] short(4) by simp
    then have "?run = Inl DivByZero" using short by (intro c(3))
    then show ?thesis using short by auto
  next
    case ok
    have i: "in_int (?n sdiv phases st)" using sdiv_in_int_iff [OF n ok(1)] ok(2) by simp
    have "?n \<le> 0 \<or> ?n sdiv phases st \<noteq> 0"
    proof (cases "?n \<le> 0")
      case False
      then have "0 < ?n" by simp
      from sdiv_eq_0_iff [OF this ok(1)] ok(3) False show ?thesis by simp
    qed simp
    from c(4) [OF ok(1) i this] obtain st' where "?run = Inr st'" by blast
    then show ?thesis using ok by auto
  qed
qed

theorem shift_run_total_iff_witness:
  "\<exists>st st'. main_workloadTest spec_policy seed0 = Inr st \<and> shift_total_pre st \<and>
     1 \<le> phases st \<and> phases st \<le> operations (config st) \<and>
     shift_runTestForCacheType spec_policy ARC st = Inr st' \<and>
     shift_runTestForCacheType spec_policy ARC st \<noteq> Inl DivByZero \<and>
     shift_runTestForCacheType spec_policy ARC (setPhases 0 st) = Inl DivByZero \<and>
     shift_runTestForCacheType spec_policy ARC (setPhases 50001 st) = Inl DivByZero"
proof -
  from main_workloadTest_Inr obtain st where m: "main_workloadTest spec_policy seed0 = Inr st"
    and f: "config st = \<lparr>capacity = 4, operations = 50000, showProgressBar = True, progressInterval = 10000\<rparr>"
      "initialDataSize st = 1000" "phases st = 5"
    by blast
  have p: "shift_total_pre st" "shift_total_pre (setPhases 0 st)" "shift_total_pre (setPhases 50001 st)"
    using f by (simp_all add: shift_total_pre_def progress_ok_def in_int_simps)
  from shift_run_total_iff [OF p(1), of spec_policy ARC] f
  obtain st' where r: "shift_runTestForCacheType spec_policy ARC st = Inr st'" by auto
  from shift_run_total_iff [OF p(2), of spec_policy ARC]
  have z: "shift_runTestForCacheType spec_policy ARC (setPhases 0 st) = Inl DivByZero" by simp
  from shift_run_total_iff [OF p(3), of spec_policy ARC] f
  have s: "shift_runTestForCacheType spec_policy ARC (setPhases 50001 st) = Inl DivByZero" by simp
  show ?thesis using m p(1) f r z s by auto
qed

subsection \<open>The workload-shift test: phases and key patterns\<close>














end
